theory Spec2Isabelle
  imports Complex_Main "HOL-Library.Word" "HOL-Library.AList" "HOL-Library.Multiset"
begin

section \<open>The execprog harness of SyzGPT-fuzzer\<close>

text \<open>
  A shallow embedding of the program runner (package main, the file that starts
  ``execprog executes a single program or a set of programs''): the retry loop of
  \<open>Context.execute\<close>, the coverage dump of \<open>Context.dumpCoverage\<close>, the global coverage
  record with its report writer \<open>saveToFile\<close>, \<open>loadPrograms\<close>, the program cursor of
  \<open>Context.getProgramIndex\<close> with the worker loop \<open>Context.run\<close>, and the two pools that
  \<open>main\<close> runs one after the other.

  Conventions. Go's \<open>int\<close> counters (program positions, coverage counts, the retry counter)
  are mathematical integers: every one of them counts executed programs, calls or program
  counters, and stays far below \<open>2 ^ 63\<close>. A \<open>log.Fatalf\<close> or a run-time panic ends the
  process; it is the \<open>Inl\<close> branch of a result. A Go map is an association list with
  distinct keys; the order in which \<open>range\<close> visits a map is not fixed by the language, and
  the model visits it in insertion order. Mutexes make the guarded functions atomic steps;
  goroutines are interleavings of such steps, given by a schedule. Packages outside this
  program (the executor, the corpus database, the program parser, the address
  restoration) are parameters of the functions that call them.
\<close>

subsection \<open>Formatting: \<open>strconv.Itoa\<close>, the verb \<open>%x\<close>, \<open>strings.TrimSuffix\<close>\<close>

definition digit_char :: "nat \<Rightarrow> char" where
  "digit_char d = ''0123456789abcdef'' ! d"

fun fmt_nat :: "nat \<Rightarrow> nat \<Rightarrow> string" where
  "fmt_nat b n =
     (if b < 2 \<or> n < b then [digit_char n]
      else fmt_nat b (n div b) @ [digit_char (n mod b)])"

declare fmt_nat.simps [simp del]

definition Itoa :: "int \<Rightarrow> string" where
  "Itoa i = (if i < 0 then ''-'' @ fmt_nat 10 (nat (- i)) else fmt_nat 10 (nat i))"

text \<open>\<open>fmt.Sprintf("0x%x", v)\<close> for an unsigned 64-bit \<open>v\<close>.\<close>

definition Sprintf_0x :: "64 word \<Rightarrow> string" where
  "Sprintf_0x v = ''0x'' @ fmt_nat 16 (unat v)"

definition HasSuffix :: "string \<Rightarrow> string \<Rightarrow> bool" where
  "HasSuffix s suf = (length suf \<le> length s \<and> drop (length s - length suf) s = suf)"

definition TrimSuffix :: "string \<Rightarrow> string \<Rightarrow> string" where
  "TrimSuffix s suf = (if HasSuffix s suf then take (length s - length suf) s else s)"

subsection \<open>Process state\<close>

text \<open>
  The log lines the properties below speak about, by the \<open>log.Logf\<close> call that prints
  them. Lines that only report progress are not recorded.
\<close>

datatype log_event =
    LogRetrying
  | LogExecutorFailed nat
  | LogSkipProg nat
  | LogRepeatedProg string
  | LogNonExistedOrigin string

datatype fatal =
    FatalExecutorFailed nat
  | FatalWriteCoverage string
  | FatalWriteTotal string
  | FatalReadLog string
  | PanicDivideByZero

text \<open>
  \<open>coverRecord\<close> is the global \<open>map[string][3]int\<close> (coverage of the original run,
  coverage of the reverse run, program length); \<open>execFailCnt\<close> the global failure counter.
  \<open>files\<close> is the file system as far as the harness writes it, \<open>unwritable\<close> the paths at
  which creating a file fails, \<open>slept\<close> the seconds spent in \<open>time.Sleep(time.Second)\<close>.
\<close>

type_synonym cover_entry = "int \<times> int \<times> int"

record state =
  files :: "string \<rightharpoonup> string"
  unwritable :: "string \<Rightarrow> bool"
  coverRecord :: "(string \<times> cover_entry) list"
  execFailCnt :: int
  slept :: nat
  logs :: "log_event list"

subsection \<open>The coverage record\<close>

definition setCoverRecord :: "string \<Rightarrow> int \<Rightarrow> int \<Rightarrow> int \<Rightarrow> state \<Rightarrow> state" where
  "setCoverRecord fileName value1 value2 progLength st =
     st\<lparr>coverRecord := AList.update fileName (value1, value2, progLength) (coverRecord st)\<rparr>"

definition getCoverRecord :: "string \<Rightarrow> state \<Rightarrow> bool \<times> int \<times> int" where
  "getCoverRecord fileName st =
     (case map_of (coverRecord st) fileName of
        Some (v0, v1, len) \<Rightarrow> (True, v0, v1)
      | None \<Rightarrow> (False, 0, 0))"

text \<open>
  The block ``record pc coverage to global map'' of \<open>dumpCoverage\<close>: \<open>covType = 0\<close> is the
  run in original order, any other value the reverse run. \<open>getCoverRecord\<close> and
  \<open>setCoverRecord\<close> take \<open>coverRecordMu\<close> each on its own, so the lock is free between
  the lookup and the store of one \<open>dumpCoverage\<close>, and the store of another worker can
  fall in between. \<open>recordStore\<close> is the branch that follows the lookup: it is given what
  the lookup returned and runs on the state of its own moment. \<open>recordCoverage\<close> is the
  block run without interruption, the lookup and the branch on one state.
\<close>

definition recordStore ::
  "string \<Rightarrow> int \<Rightarrow> int \<Rightarrow> int \<Rightarrow> bool \<times> int \<times> int \<Rightarrow> state \<Rightarrow> state" where
  "recordStore coverFile covType covNum progLength looked st =
     (let recordKey = TrimSuffix coverFile ''.rev'' in
      case looked of
        (ok, cov0, cov1) \<Rightarrow>
          if covType = 0 then
            (if ok then st\<lparr>logs := logs st @ [LogRepeatedProg recordKey]\<rparr>
             else setCoverRecord recordKey covNum cov1 progLength st)
          else
            (if ok then setCoverRecord recordKey cov0 covNum progLength st
             else st\<lparr>logs := logs st @ [LogNonExistedOrigin recordKey]\<rparr>))"

definition recordCoverage :: "string \<Rightarrow> int \<Rightarrow> int \<Rightarrow> int \<Rightarrow> state \<Rightarrow> state" where
  "recordCoverage coverFile covType covNum progLength st =
     recordStore coverFile covType covNum progLength
       (getCoverRecord (TrimSuffix coverFile ''.rev'') st) st"

definition state0 :: state where
  "state0 = \<lparr>files = Map.empty, unwritable = (\<lambda>_. False), coverRecord = [],
     execFailCnt = 0, slept = 0, logs = []\<rparr>"

definition st_orig :: state where
  "st_orig = state0\<lparr>coverRecord := [(''cov_a'', (10, 0, 3))]\<rparr>"

definition st_other :: state where
  "st_other = state0\<lparr>coverRecord := [(''cov_a'', (10, 0, 3)), (''cov_b'', (4, 0, 1))]\<rparr>"

text \<open>Reading a formatted number back, to show that formatting loses nothing.\<close>

definition digit_val :: "char \<Rightarrow> nat" where
  "digit_val c = (if of_char c < (97::nat) then of_char c - 48 else of_char c - 87)"

definition unfmt :: "nat \<Rightarrow> string \<Rightarrow> nat" where
  "unfmt b s = foldl (\<lambda>a c. a * b + digit_val c) 0 s"

subsection \<open>Execution results and flags\<close>

text \<open>
  \<open>ipc.CallInfo\<close> and \<open>ipc.ProgInfo\<close>, with the fields the coverage dump reads: the signal
  and the raw 32-bit program counters of each call, and one extra result that belongs to no
  call.
\<close>

record CallInfo =
  Signal :: "32 word list"
  Cover :: "32 word list"

record ProgInfo =
  Calls :: "CallInfo list"
  Extra :: CallInfo

text \<open>The command-line flags the modelled functions read.\<close>

record flags =
  flagCoverFile :: string
  flagProgDir :: string
  flagSemantic :: bool
  flagNoDumpCall :: bool
  flagMaxRetry :: int

text \<open>
  \<open>cover.RestorePC\<close> lives in another package; the dump takes it as a parameter. It turns
  a raw program counter and the hint \<open>0xffffffff\<close> into a 64-bit address.
\<close>

type_synonym restore = "32 word \<Rightarrow> 32 word \<Rightarrow> 64 word"

subsection \<open>The coverage dump\<close>

text \<open>\<open>osutil.WriteFile\<close>: \<open>None\<close> is its error.\<close>

definition WriteFile :: "string \<Rightarrow> string \<Rightarrow> state \<Rightarrow> state option" where
  "WriteFile name data st =
     (if unwritable st name then None else Some (st\<lparr>files := (files st)(name \<mapsto> data)\<rparr>))"

text \<open>The buffer \<open>dumpCallCoverage\<close> fills: one \<open>fmt.Fprintf(buf, "0x%x\n", ...)\<close> per counter.\<close>

definition coverLines :: "restore \<Rightarrow> 32 word list \<Rightarrow> string" where
  "coverLines RestorePC cov =
     concat (map (\<lambda>pc. Sprintf_0x (RestorePC pc 0xffffffff) @ [CHR 0x0A]) cov)"

definition dumpCallCoverage :: "restore \<Rightarrow> string \<Rightarrow> CallInfo \<Rightarrow> state \<Rightarrow> fatal + state" where
  "dumpCallCoverage RestorePC coverFile info st =
     (if length (Cover info) = 0 then Inr st
      else case WriteFile coverFile (coverLines RestorePC (Cover info)) st of
             None \<Rightarrow> Inl (FatalWriteCoverage coverFile)
           | Some st' \<Rightarrow> Inr st')"

text \<open>
  The first loop of \<open>dumpCoverage\<close>, over \<open>info.Calls\<close> with the index \<open>i\<close>; the file name
  is \<open>fmt.Sprintf("%v.%v", coverFile, i)\<close>.
\<close>

fun dumpCalls :: "flags \<Rightarrow> restore \<Rightarrow> string \<Rightarrow> nat \<Rightarrow> CallInfo list \<Rightarrow> state \<Rightarrow> fatal + state" where
  "dumpCalls fl RestorePC coverFile i [] st = Inr st"
| "dumpCalls fl RestorePC coverFile i (cinf # rest) st =
     (if \<not> flagNoDumpCall fl \<and> \<not> flagSemantic fl then
        (case dumpCallCoverage RestorePC (coverFile @ ''.'' @ Itoa (int i)) cinf st of
           Inl e \<Rightarrow> Inl e
         | Inr st' \<Rightarrow> dumpCalls fl RestorePC coverFile (Suc i) rest st')
      else dumpCalls fl RestorePC coverFile (Suc i) rest st)"

text \<open>
  The second loop: \<open>totalMap\<close> is keyed by the formatted address, \<open>covNum\<close> counts the keys
  that were new, \<open>progLength\<close> the calls. \<open>totalMap\<close> is kept as the list of its keys.
\<close>

definition addPC :: "string list \<times> int \<Rightarrow> string \<Rightarrow> string list \<times> int" where
  "addPC acc newPC =
     (case acc of (totalMap, covNum) \<Rightarrow>
        if newPC \<in> set totalMap then (totalMap, covNum) else (totalMap @ [newPC], covNum + 1))"

definition totalCoverage :: "restore \<Rightarrow> CallInfo list \<Rightarrow> string list \<times> int \<times> int" where
  "totalCoverage RestorePC calls =
     foldl (\<lambda>(totalMap, covNum, progLength) cinf.
              case foldl (\<lambda>acc pc. addPC acc (Sprintf_0x (RestorePC pc 0xffffffff)))
                     (totalMap, covNum) (Cover cinf) of
                (totalMap', covNum') \<Rightarrow> (totalMap', covNum', progLength + 1))
       ([], 0, 0) calls"

definition dumpCoverage ::
  "flags \<Rightarrow> restore \<Rightarrow> string \<Rightarrow> ProgInfo \<Rightarrow> int \<Rightarrow> state \<Rightarrow> fatal + state" where
  "dumpCoverage fl RestorePC coverFile info covType st =
     (case dumpCalls fl RestorePC coverFile 0 (Calls info) st of
        Inl e \<Rightarrow> Inl e
      | Inr st1 \<Rightarrow>
          (case totalCoverage RestorePC (Calls info) of
             (totalMap, covNum, progLength) \<Rightarrow>
               (case WriteFile (coverFile @ ''.total'')
                       (concat (map (\<lambda>pc. pc @ [CHR 0x0A]) totalMap))
                       (recordCoverage coverFile covType covNum progLength st1) of
                  None \<Rightarrow> Inl (FatalWriteTotal (coverFile @ ''.total''))
                | Some st3 \<Rightarrow>
                    dumpCallCoverage RestorePC (coverFile @ ''.extra'') (Extra info) st3)))"

text \<open>
  Names for the statements: the per-call file of call \<open>i\<close>, and the set of restored
  addresses that the calls of a program reached.
\<close>

definition callFile :: "string \<Rightarrow> nat \<Rightarrow> string" where
  "callFile coverFile i = coverFile @ ''.'' @ Itoa (int i)"

definition restored :: "restore \<Rightarrow> CallInfo list \<Rightarrow> 64 word set" where
  "restored R calls = (\<Union>ci \<in> set calls. (\<lambda>pc. R pc 0xffffffff) ` set (Cover ci))"

text \<open>
  Sample inputs for the closed examples: a restoration that puts the hint into the upper
  half of the address, a program of two calls whose coverage overlaps, and flag settings.
\<close>

definition restore_hi :: restore where
  "restore_hi pc base = push_bit 32 (ucast base) + ucast pc"

definition info2 :: ProgInfo where
  "info2 = \<lparr>Calls = [\<lparr>Signal = [], Cover = [1, 2]\<rparr>, \<lparr>Signal = [], Cover = [2, 3, 1]\<rparr>],
            Extra = \<lparr>Signal = [], Cover = []\<rparr>\<rparr>"

definition fl0 :: flags where
  "fl0 = \<lparr>flagCoverFile = ''cov'', flagProgDir = '''', flagSemantic = False,
           flagNoDumpCall = False, flagMaxRetry = 10\<rparr>"

definition fl_semantic :: flags where
  "fl_semantic = fl0\<lparr>flagSemantic := True\<rparr>"

subsection \<open>Executing one program: \<open>Context.execute\<close>\<close>

text \<open>
  \<open>env.Exec\<close> is the external executor. Its error is \<open>nil\<close>, the sentinel
  \<open>prog.ErrExecBufferTooSmall\<close>, or anything else; its \<open>info\<close> may be \<open>nil\<close>. An executor
  is given by the result of each attempt of a dispatch, counted from 0.
\<close>

datatype exec_err = ErrNil | ErrExecBufferTooSmall | ErrOther

type_synonym exec_result = "exec_err \<times> ProgInfo option"

type_synonym executor = "nat \<Rightarrow> exec_result"

text \<open>The test \<open>err != nil && err != prog.ErrExecBufferTooSmall\<close>.\<close>

definition failed :: "exec_result \<Rightarrow> bool" where
  "failed r = (fst r \<noteq> ErrNil \<and> fst r \<noteq> ErrExecBufferTooSmall)"

text \<open>
  The loop \<open>for try := 0; ; try++\<close> of \<open>execute\<close>, from the attempt \<open>ntry\<close> on. It ends
  with \<open>Inl\<close> at \<open>log.Fatalf\<close>, with \<open>None\<close> at the \<open>break\<close> that skips the program, and
  with the executor's result at the first attempt that did not fail. It terminates because
  a failing attempt recurs only while \<open>try \<le> *flagMaxRetry\<close>.
\<close>

function execute_loop ::
  "flags \<Rightarrow> executor \<Rightarrow> nat \<Rightarrow> nat \<Rightarrow> state \<Rightarrow> fatal + (exec_result option \<times> state)" where
  "execute_loop fl Exec progIndex ntry st =
     (if failed (Exec ntry) then
        (if int ntry > flagMaxRetry fl then
           (if flagProgDir fl \<noteq> '''' then
              Inr (None, st\<lparr>execFailCnt := execFailCnt st + 1,
                            logs := logs st @ [LogExecutorFailed ntry, LogSkipProg progIndex]\<rparr>)
            else Inl (FatalExecutorFailed ntry))
         else execute_loop fl Exec progIndex (Suc ntry)
                (st\<lparr>slept := Suc (slept st), logs := logs st @ [LogRetrying]\<rparr>))
      else Inr (Some (Exec ntry), st))"
  by pat_completeness auto
termination
  by (relation "measure (\<lambda>(fl, Exec, progIndex, ntry, st). nat (flagMaxRetry fl + 1 - int ntry))")
    auto

declare execute_loop.simps [simp del]

text \<open>
  \<open>execute\<close> after the loop: with an \<open>info\<close> and a cover file configured, the coverage is
  dumped under \<open><coverfile>_<program file name>\<close> in directory mode and under
  \<open><coverfile>_prog<progIndex>\<close> otherwise. Indexing \<open>ctx.progFns\<close> modulo its length
  panics when the list is empty. The gate ticket, \<open>logProgram\<close>, \<open>printCallResults\<close> and
  \<open>printHints\<close> only admit, log and print; they are left out.
\<close>

definition execute ::
  "flags \<Rightarrow> restore \<Rightarrow> executor \<Rightarrow> string list \<Rightarrow> nat \<Rightarrow> int \<Rightarrow> state \<Rightarrow> fatal + state" where
  "execute fl RestorePC Exec progFns progIndex covType st =
     (case execute_loop fl Exec progIndex 0 st of
        Inl e \<Rightarrow> Inl e
      | Inr (None, st') \<Rightarrow> Inr st'
      | Inr (Some (err, None), st') \<Rightarrow> Inr st'
      | Inr (Some (err, Some info), st') \<Rightarrow>
          if flagCoverFile fl \<noteq> '''' then
            (if flagProgDir fl \<noteq> '''' then
               (if length progFns = 0 then Inl PanicDivideByZero
                else dumpCoverage fl RestorePC
                       (flagCoverFile fl @ ''_'' @ progFns ! (progIndex mod length progFns))
                       info covType st')
             else dumpCoverage fl RestorePC (flagCoverFile fl @ ''_prog'' @ Itoa (int progIndex))
                    info covType st')
          else Inr st')"

text \<open>
  For the statements: the state after \<open>n\<close> rounds of ``log, sleep one second, retry'', the
  state after the skip, a mock executor that fails \<open>k\<close> times and then succeeds, and flags
  for directory mode with the default \<open>-retry 10\<close>.
\<close>

definition retried :: "nat \<Rightarrow> state \<Rightarrow> state" where
  "retried n st = st\<lparr>slept := slept st + n, logs := logs st @ replicate n LogRetrying\<rparr>"

definition skipped :: "nat \<Rightarrow> nat \<Rightarrow> state \<Rightarrow> state" where
  "skipped t progIndex st = st\<lparr>execFailCnt := execFailCnt st + 1,
     logs := logs st @ [LogExecutorFailed t, LogSkipProg progIndex]\<rparr>"

definition fails_then_ok :: "nat \<Rightarrow> ProgInfo \<Rightarrow> executor" where
  "fails_then_ok k info t = (if t < k then (ErrOther, None) else (ErrNil, Some info))"

definition fl_dir :: flags where
  "fl_dir = fl0\<lparr>flagProgDir := ''progs''\<rparr>"

subsection \<open>Loading programs: \<open>loadPrograms\<close>\<close>

text \<open>
  The loader's collaborators are outside this repository and are parameters: \<open>db.Open\<close>
  gives the values of a corpus's records in the order \<open>range\<close> visits them, or fails;
  \<open>os.ReadFile\<close> gives a file's bytes, or fails; \<open>target.Deserialize\<close> parses one
  record, or fails; \<open>target.ParseLog\<close> extracts the programs of a log.
\<close>

record ('p, 'b) loader =
  dbOpen :: "string \<Rightarrow> 'b list option"
  ReadFile :: "string \<Rightarrow> 'b option"
  Deserialize :: "'b \<Rightarrow> 'p option"
  ParseLog :: "'b \<Rightarrow> 'p list"

text \<open>The inner loop over \<open>corpus.Records\<close>: a record that does not parse is passed over.\<close>

fun corpusProgs :: "('b \<Rightarrow> 'p option) \<Rightarrow> 'b list \<Rightarrow> 'p list \<Rightarrow> 'p list" where
  "corpusProgs deser [] progs = progs"
| "corpusProgs deser (rec # recs) progs =
     (case deser rec of
        None \<Rightarrow> corpusProgs deser recs progs
      | Some p \<Rightarrow> corpusProgs deser recs (progs @ [p]))"

text \<open>
  The loop over the file names, with the programs collected so far. A name that opens as
  a corpus is never read as a log; one that does not is read with \<open>os.ReadFile\<close>, and a
  failure there is \<open>log.Fatalf\<close>.
\<close>

fun loadPrograms_from :: "('p, 'b) loader \<Rightarrow> string list \<Rightarrow> 'p list \<Rightarrow> fatal + 'p list" where
  "loadPrograms_from env [] progs = Inr progs"
| "loadPrograms_from env (fn # fns) progs =
     (case dbOpen env fn of
        Some records \<Rightarrow> loadPrograms_from env fns (corpusProgs (Deserialize env) records progs)
      | None \<Rightarrow>
          (case ReadFile env fn of
             None \<Rightarrow> Inl (FatalReadLog fn)
           | Some data \<Rightarrow> loadPrograms_from env fns (progs @ ParseLog env data)))"

definition loadPrograms :: "('p, 'b) loader \<Rightarrow> string list \<Rightarrow> fatal + 'p list" where
  "loadPrograms env fns = loadPrograms_from env fns []"

text \<open>
  For the statements: a source is readable when it opens as a corpus or can be read as a
  file; \<open>sourceProgs\<close> is what a readable source contributes. \<open>env1\<close> is a sample
  file system with a corpus of three records (one malformed) and a log.
\<close>

definition readable :: "('p, 'b) loader \<Rightarrow> string \<Rightarrow> bool" where
  "readable env fn = (dbOpen env fn \<noteq> None \<or> ReadFile env fn \<noteq> None)"

definition sourceProgs :: "('p, 'b) loader \<Rightarrow> string \<Rightarrow> 'p list" where
  "sourceProgs env fn =
     (case dbOpen env fn of
        Some records \<Rightarrow> List.map_filter (Deserialize env) records
      | None \<Rightarrow> (case ReadFile env fn of None \<Rightarrow> [] | Some data \<Rightarrow> ParseLog env data))"

definition env1 :: "(nat, string) loader" where
  "env1 = \<lparr>dbOpen = (\<lambda>fn. if fn = ''corpus.db'' then Some [''7'', ''bad'', ''9''] else None),
           ReadFile = (\<lambda>fn. if fn = ''corpus.db'' \<or> fn = ''run.log'' then Some ''log'' else None),
           Deserialize = (\<lambda>b. if b = ''7'' then Some 7 else if b = ''9'' then Some 9 else None),
           ParseLog = (\<lambda>b. [1, 2])\<rparr>"

subsection \<open>The worker pool: \<open>Context\<close>, \<open>getProgramIndex\<close>, \<open>run\<close>\<close>

text \<open>
  The fields of \<open>Context\<close> that scheduling reads. \<open>main\<close> builds a context without
  setting \<open>pos\<close>, so a pool starts at position 0.
\<close>

record 'p Context =
  progs :: "'p list"
  progFns :: "string list"
  repeat :: int
  pos :: nat

text \<open>
  \<open>getProgramIndex\<close> holds \<open>posMu\<close> from its first to its last statement, so calls from
  different workers happen one after another, and a call is one step on the context. The
  condition of the progress log computes \<open>idx % len(ctx.progs)\<close>, which panics for an
  empty program list; the log line and \<open>lastPrint\<close> are left out.
\<close>

definition getProgramIndex :: "'p Context \<Rightarrow> fatal + (nat \<times> 'p Context)" where
  "getProgramIndex ctx =
     (if length (progs ctx) = 0 then Inl PanicDivideByZero
      else Inr (pos ctx, ctx\<lparr>pos := Suc (pos ctx)\<rparr>))"

text \<open>A sequence of \<open>n\<close> calls, in the order in which they take the lock.\<close>

fun getProgramIndex_calls :: "nat \<Rightarrow> 'p Context \<Rightarrow> fatal + (nat list \<times> 'p Context)" where
  "getProgramIndex_calls 0 ctx = Inr ([], ctx)"
| "getProgramIndex_calls (Suc n) ctx =
     (case getProgramIndex ctx of
        Inl e \<Rightarrow> Inl e
      | Inr (idx, ctx') \<Rightarrow>
          (case getProgramIndex_calls n ctx' of
             Inl e \<Rightarrow> Inl e
           | Inr (idxs, ctx'') \<Rightarrow> Inr (idx # idxs, ctx'')))"

text \<open>
  The test \<open>idx >= len(ctx.progs)*ctx.repeat\<close> multiplies in Go's \<open>int\<close>, which has 64
  bits on the targets of this tool and wraps around in two's complement; \<open>ctx.repeat\<close> is
  the value of the flag \<open>-repeat\<close>, any 64-bit integer. \<open>wrap64\<close> is the wrap-around.
\<close>

definition wrap64 :: "int \<Rightarrow> int" where
  "wrap64 x = (x + 2 ^ 63) mod 2 ^ 64 - 2 ^ 63"

text \<open>
  One iteration of the loop of \<open>run\<close>: it returns when the shutdown channel is closed or
  the drawn index is beyond the repeat limit, and dispatches \<open>ctx.execute\<close> otherwise.
  (Before its loop \<open>run\<close> creates the executor environment with \<open>ipc.MakeEnv\<close>; a
  failure there is fatal and ends the process before the worker's first iteration.)
\<close>

datatype 'p iteration = Stop | Dispatch 'p nat

definition run_iteration :: "bool \<Rightarrow> 'p Context \<Rightarrow> fatal + ('p iteration \<times> 'p Context)" where
  "run_iteration shutdown ctx =
     (if shutdown then Inr (Stop, ctx)
      else case getProgramIndex ctx of
             Inl e \<Rightarrow> Inl e
           | Inr (idx, ctx') \<Rightarrow>
               if repeat ctx' > 0 \<and> int idx \<ge> wrap64 (int (length (progs ctx')) * repeat ctx')
               then Inr (Stop, ctx')
               else Inr (Dispatch (progs ctx' ! (idx mod length (progs ctx'))) idx, ctx'))"

text \<open>
  A pool of workers that share one context. \<open>returned\<close> tells which workers have left
  \<open>run\<close>; \<open>dispatched\<close> lists the calls of \<open>ctx.execute\<close> as (worker, program, index). An
  event is one loop iteration of a worker that is still running, or the interrupt that
  closes the shutdown channel; a schedule is the order of the events. The executions
  themselves are not part of this model: each dispatched execution is taken to return.
\<close>

record 'p pool =
  pctx :: "'p Context"
  shutdown :: bool
  returned :: "bool list"
  dispatched :: "(nat \<times> 'p \<times> nat) list"

datatype event = Iterate nat | Interrupt

definition pool_step :: "event \<Rightarrow> 'p pool \<Rightarrow> fatal + 'p pool" where
  "pool_step ev pl =
     (case ev of
        Interrupt \<Rightarrow> Inr (pl\<lparr>shutdown := True\<rparr>)
      | Iterate pid \<Rightarrow>
          if pid < length (returned pl) \<and> \<not> returned pl ! pid then
            (case run_iteration (shutdown pl) (pctx pl) of
               Inl e \<Rightarrow> Inl e
             | Inr (Stop, c) \<Rightarrow> Inr (pl\<lparr>pctx := c, returned := (returned pl)[pid := True]\<rparr>)
             | Inr (Dispatch entry idx, c) \<Rightarrow>
                 Inr (pl\<lparr>pctx := c, dispatched := dispatched pl @ [(pid, entry, idx)]\<rparr>))
          else Inr pl)"

fun pool_run :: "event list \<Rightarrow> 'p pool \<Rightarrow> fatal + 'p pool" where
  "pool_run [] pl = Inr pl"
| "pool_run (ev # evs) pl =
     (case pool_step ev pl of Inl e \<Rightarrow> Inl e | Inr pl' \<Rightarrow> pool_run evs pl')"

definition start_pool :: "'p list \<Rightarrow> string list \<Rightarrow> int \<Rightarrow> nat \<Rightarrow> 'p pool" where
  "start_pool ps fns r procs =
     \<lparr>pctx = \<lparr>progs = ps, progFns = fns, repeat = r, pos = 0\<rparr>, shutdown = False,
      returned = replicate procs False, dispatched = []\<rparr>"

text \<open>For the statements: projections of the dispatch list, schedules without an interrupt,
  the invariant of a pool, and sample contexts and schedules.\<close>

definition idxs :: "(nat \<times> 'p \<times> nat) list \<Rightarrow> nat list" where
  "idxs d = map (\<lambda>(pid, p, i). i) d"

definition entries :: "(nat \<times> 'p \<times> nat) list \<Rightarrow> 'p list" where
  "entries d = map (\<lambda>(pid, p, i). p) d"

definition no_interrupt :: "event list \<Rightarrow> bool" where
  "no_interrupt evs = (Interrupt \<notin> set evs)"

definition pool_inv :: "'p list \<Rightarrow> int \<Rightarrow> 'p pool \<Rightarrow> bool" where
  "pool_inv ps r pl \<longleftrightarrow>
     progs (pctx pl) = ps \<and> repeat (pctx pl) = r \<and> \<not> shutdown pl
     \<and> pos (pctx pl) = length (dispatched pl) + count_list (returned pl) True
     \<and> idxs (dispatched pl) = [0..<length (dispatched pl)]
     \<and> entries (dispatched pl) = map (\<lambda>i. ps ! (i mod length ps)) [0..<length (dispatched pl)]
     \<and> int (length (dispatched pl)) \<le> int (length ps) * r
     \<and> (0 < count_list (returned pl) True \<longrightarrow> int (length (dispatched pl)) = int (length ps) * r)"

definition ctx_big :: "string Context" where
  "ctx_big = \<lparr>progs = [''p0'', ''p1'', ''p2'', ''p3''], progFns = [], repeat = 2 ^ 62, pos = 0\<rparr>"

definition ctx2 :: "string Context" where
  "ctx2 = \<lparr>progs = [''a'', ''b''], progFns = [''a'', ''b''], repeat = 1, pos = 0\<rparr>"

definition progs4 :: "string list" where
  "progs4 = [''p0'', ''p1'', ''p2'', ''p3'']"

definition sched10 :: "event list" where
  "sched10 = [Iterate 0, Iterate 0, Iterate 1, Iterate 0, Iterate 1, Iterate 1, Iterate 0,
              Iterate 1, Iterate 1, Iterate 0]"

subsection \<open>\<open>float64\<close> arithmetic and the verb \<open>%.2f\<close>\<close>

text \<open>
  The report writer computes its rates in \<open>float64\<close>. A \<open>float64\<close> is a NaN, an infinity
  with its sign, or a finite number with its sign and its magnitude, an exact rational
  (the sign is kept apart so that the negative zero exists). Results are rounded to the
  nearest representable number, ties to the even significand, as IEEE 754 binary64
  prescribes: 53 significant bits, least exponent \<open>-1074\<close>, overflow to infinity from
  \<open>2 ^ 1024\<close> on. Dividing by zero does not panic in Go's floating point: it gives an
  infinity, or NaN for \<open>0 / 0\<close>.
\<close>

datatype float64 = NaN | Infinite bool | Fin bool rat

text \<open>Rounding a rational to the nearest integer, ties to the even one.\<close>

definition round_even :: "rat \<Rightarrow> int" where
  "round_even x =
     (let f = \<lfloor>x\<rfloor>; d = x - of_int f
      in if d < 1 / 2 then f else if 1 / 2 < d then f + 1 else if even f then f else f + 1)"

text \<open>
  \<open>bitlen n\<close> is the number of binary digits of \<open>n\<close>, and \<open>ilog2 x\<close> the integer part of
  the binary logarithm of a positive rational; \<open>scale2 x e\<close> is \<open>x * 2 ^ e\<close>.
\<close>

fun bitlen :: "nat \<Rightarrow> nat" where
  "bitlen n = (if n = 0 then 0 else Suc (bitlen (n div 2)))"

declare bitlen.simps [simp del]

definition ilog2 :: "rat \<Rightarrow> int" where
  "ilog2 x = (if 1 \<le> x then int (bitlen (nat \<lfloor>x\<rfloor>)) - 1
              else - int (bitlen (nat (\<lceil>1 / x\<rceil> - 1))))"

definition scale2 :: "rat \<Rightarrow> int \<Rightarrow> rat" where
  "scale2 x e = (if 0 \<le> e then x * of_int (2 ^ nat e) else x / of_int (2 ^ nat (- e)))"

text \<open>
  \<open>round64\<close> rounds a magnitude to binary64: the unit of the result is \<open>2 ^ e\<close> for the
  exponent \<open>e\<close> that leaves 53 bits, or the least exponent for a subnormal result.
  \<open>None\<close> is overflow.
\<close>

definition round64 :: "rat \<Rightarrow> rat option" where
  "round64 x =
     (if x = 0 then Some 0
      else let e = max (ilog2 x - 52) (- 1074);
               r = scale2 (of_int (round_even (scale2 x (- e)))) e
           in if 1024 \<le> ilog2 r then None else Some r)"

definition mk_float :: "bool \<Rightarrow> rat \<Rightarrow> float64" where
  "mk_float s x = (case round64 x of None \<Rightarrow> Infinite s | Some r \<Rightarrow> Fin s r)"

text \<open>The conversion \<open>float64(n)\<close>, the quotient \<open>/\<close> and the product \<open>*\<close>.\<close>

definition float64_of_int :: "int \<Rightarrow> float64" where
  "float64_of_int n = mk_float (n < 0) (of_int \<bar>n\<bar>)"

fun fdiv :: "float64 \<Rightarrow> float64 \<Rightarrow> float64" where
  "fdiv NaN _ = NaN"
| "fdiv _ NaN = NaN"
| "fdiv (Infinite s) (Infinite t) = NaN"
| "fdiv (Infinite s) (Fin t y) = Infinite (s \<noteq> t)"
| "fdiv (Fin s x) (Infinite t) = Fin (s \<noteq> t) 0"
| "fdiv (Fin s x) (Fin t y) =
     (if y = 0 then (if x = 0 then NaN else Infinite (s \<noteq> t)) else mk_float (s \<noteq> t) (x / y))"

fun fmul :: "float64 \<Rightarrow> float64 \<Rightarrow> float64" where
  "fmul NaN _ = NaN"
| "fmul _ NaN = NaN"
| "fmul (Infinite s) (Infinite t) = Infinite (s \<noteq> t)"
| "fmul (Infinite s) (Fin t y) = (if y = 0 then NaN else Infinite (s \<noteq> t))"
| "fmul (Fin s x) (Infinite t) = (if x = 0 then NaN else Infinite (s \<noteq> t))"
| "fmul (Fin s x) (Fin t y) = mk_float (s \<noteq> t) (x * y)"

text \<open>
  \<open>fmt.Sprintf("%.2f%%", v)\<close>: the exact value is rounded to two decimals, ties to even;
  NaN prints as \<open>NaN\<close>, an infinity with its sign.
\<close>

definition Sprintf_2f_pct :: "float64 \<Rightarrow> string" where
  "Sprintf_2f_pct v =
     (case v of
        NaN \<Rightarrow> ''NaN''
      | Infinite s \<Rightarrow> (if s then ''-Inf'' else ''+Inf'')
      | Fin s x \<Rightarrow>
          (let n = nat (round_even (x * 100))
           in (if s then ''-'' else '''') @ fmt_nat 10 (n div 100) @ ''.''
              @ [digit_char (n mod 100 div 10), digit_char (n mod 10)])) @ ''%''"

subsection \<open>The report writer: \<open>saveToFile\<close>\<close>

text \<open>
  \<open>saveToFile\<close> returns an error when \<open>os.Create\<close> or one of the \<open>file.WriteString\<close>
  calls fails. Creating fails at an unwritable path; \<open>wok n\<close> tells whether the write
  number \<open>n\<close> succeeds (0 is the header, then one per entry, then the summary). On an
  error the state is dropped: \<open>main\<close> ends the process.
\<close>

datatype io_error = CreateError | WriteError

record counters =
  totalProgCnt :: int
  totalWinCnt :: int
  totalEqualCnt :: int
  totalLoseCnt :: int
  oneLineProgCnt :: int
  oneLineWinCnt :: int
  oneLineEqualCnt :: int
  oneLineLoseCnt :: int

definition counters0 :: counters where
  "counters0 = \<lparr>totalProgCnt = 0, totalWinCnt = 0, totalEqualCnt = 0, totalLoseCnt = 0,
     oneLineProgCnt = 0, oneLineWinCnt = 0, oneLineEqualCnt = 0, oneLineLoseCnt = 0\<rparr>"

text \<open>The counting part of the loop body, for one entry of the record.\<close>

definition countEntry :: "cover_entry \<Rightarrow> counters \<Rightarrow> counters" where
  "countEntry v c =
     (case v of (cov0, cov1, progLength) \<Rightarrow>
        let c1 = c\<lparr>totalProgCnt := totalProgCnt c + 1\<rparr>;
            c2 = (if progLength = 1 then c1\<lparr>oneLineProgCnt := oneLineProgCnt c1 + 1\<rparr> else c1)
        in if cov0 > cov1 then
             (let c3 = c2\<lparr>totalWinCnt := totalWinCnt c2 + 1\<rparr>
              in if progLength = 1 then c3\<lparr>oneLineWinCnt := oneLineWinCnt c3 + 1\<rparr> else c3)
           else if cov0 = cov1 then
             (let c3 = c2\<lparr>totalEqualCnt := totalEqualCnt c2 + 1\<rparr>
              in if progLength = 1 then c3\<lparr>oneLineEqualCnt := oneLineEqualCnt c3 + 1\<rparr> else c3)
           else
             (let c3 = c2\<lparr>totalLoseCnt := totalLoseCnt c2 + 1\<rparr>
              in if progLength = 1 then c3\<lparr>oneLineLoseCnt := oneLineLoseCnt c3 + 1\<rparr> else c3))"

text \<open>The data row of an entry.\<close>

definition rowLine :: "string \<Rightarrow> cover_entry \<Rightarrow> string" where
  "rowLine key v =
     (case v of (cov0, cov1, progLength) \<Rightarrow>
        key @ '','' @ Itoa cov0 @ '','' @ Itoa cov1 @ '','' @ Itoa progLength @ [CHR 0x0A])"

text \<open>
  The loop \<open>for key, value := range coverRecord\<close> with the counters and the text written
  so far; \<open>None\<close> is the early return at a failed write.
\<close>

fun saveToFile_loop ::
  "(nat \<Rightarrow> bool) \<Rightarrow> nat \<Rightarrow> (string \<times> cover_entry) list \<Rightarrow> counters \<Rightarrow> string
     \<Rightarrow> (counters \<times> string) option" where
  "saveToFile_loop wok n [] c buf = Some (c, buf)"
| "saveToFile_loop wok n ((key, v) # rest) c buf =
     (if wok n then saveToFile_loop wok (Suc n) rest (countEntry v c) (buf @ rowLine key v)
      else None)"

text \<open>The three rates, as the code computes them.\<close>

definition OCER :: "counters \<Rightarrow> float64" where
  "OCER c = fmul (fdiv (float64_of_int (totalWinCnt c)) (float64_of_int (totalProgCnt c)))
              (Fin False 100)"

definition ECER :: "counters \<Rightarrow> float64" where
  "ECER c = fmul (fdiv (float64_of_int (totalWinCnt c - oneLineWinCnt c))
                       (float64_of_int (totalProgCnt c - oneLineWinCnt c)))
              (Fin False 100)"

definition CER :: "counters \<Rightarrow> float64" where
  "CER c = fmul (fdiv (float64_of_int (totalWinCnt c - oneLineWinCnt c))
                      (float64_of_int (totalProgCnt c)))
             (Fin False 100)"

definition headerLine :: string where
  "headerLine = ''Program Name'' @ '','' @ ''Cover'' @ '','' @ ''ReverseCover'' @ '',''
     @ ''Program Length'' @ [CHR 0x0A]"

definition summaryLines :: "int \<Rightarrow> counters \<Rightarrow> string" where
  "summaryLines failCnt c =
     [CHR 0x0A] @ ''Evaluation Results of Contextual Effectiveness:'' @ [CHR 0x0A]
     @ ''Execution Fails:'' @ Itoa failCnt @ [CHR 0x0A]
     @ ''Total Progs: '' @ Itoa (totalProgCnt c) @ [CHR 0x0A]
     @ ''Total Win: '' @ Itoa (totalWinCnt c) @ [CHR 0x0A]
     @ ''Total Equal: '' @ Itoa (totalEqualCnt c) @ [CHR 0x0A]
     @ ''Total Lose: '' @ Itoa (totalLoseCnt c) @ [CHR 0x0A, CHR 0x0A]
     @ ''One-line Progs:'' @ Itoa (oneLineProgCnt c) @ [CHR 0x0A]
     @ ''One-line Win:'' @ Itoa (oneLineWinCnt c) @ [CHR 0x0A]
     @ ''One-line Equal:'' @ Itoa (oneLineEqualCnt c) @ [CHR 0x0A]
     @ ''One-line Lose:'' @ Itoa (oneLineLoseCnt c) @ [CHR 0x0A, CHR 0x0A]
     @ ''Overall Context Effective Rate (OCER): '' @ Sprintf_2f_pct (OCER c) @ [CHR 0x0A]
     @ ''Exclusive Context Effective Rate (ECER): '' @ Sprintf_2f_pct (ECER c) @ [CHR 0x0A]
     @ ''Context Effective Rate (CER): '' @ Sprintf_2f_pct (CER c) @ [CHR 0x0A]"

definition saveToFile :: "string \<Rightarrow> (nat \<Rightarrow> bool) \<Rightarrow> state \<Rightarrow> io_error + state" where
  "saveToFile fileName wok st =
     (if unwritable st fileName then Inl CreateError
      else if \<not> wok 0 then Inl WriteError
      else case saveToFile_loop wok 1 (coverRecord st) counters0 headerLine of
             None \<Rightarrow> Inl WriteError
           | Some (c, buf) \<Rightarrow>
               if wok (Suc (length (coverRecord st)))
               then Inr (st\<lparr>files := (files st)(fileName \<mapsto> buf @ summaryLines (execFailCnt st) c)\<rparr>)
               else Inl WriteError)"

text \<open>
  The classification in the specification's words, to compare with the loop: an entry is a
  Win when the original coverage is greater, Equal when both are equal, Lose otherwise; an
  entry of length 1 is a one-line entry. \<open>classified\<close> counts a list of entries that
  way.
\<close>

definition isWin :: "cover_entry \<Rightarrow> bool" where
  "isWin v = (fst v > fst (snd v))"

definition isEqual :: "cover_entry \<Rightarrow> bool" where
  "isEqual v = (fst v = fst (snd v))"

definition isLose :: "cover_entry \<Rightarrow> bool" where
  "isLose v = (fst v < fst (snd v))"

definition oneLine :: "cover_entry \<Rightarrow> bool" where
  "oneLine v = (snd (snd v) = 1)"

definition count_if :: "(cover_entry \<Rightarrow> bool) \<Rightarrow> cover_entry list \<Rightarrow> int" where
  "count_if P es = int (length (filter P es))"

definition classified :: "cover_entry list \<Rightarrow> counters" where
  "classified es =
     \<lparr>totalProgCnt = int (length es),
      totalWinCnt = count_if isWin es,
      totalEqualCnt = count_if isEqual es,
      totalLoseCnt = count_if isLose es,
      oneLineProgCnt = count_if oneLine es,
      oneLineWinCnt = count_if (\<lambda>v. isWin v \<and> oneLine v) es,
      oneLineEqualCnt = count_if (\<lambda>v. isEqual v \<and> oneLine v) es,
      oneLineLoseCnt = count_if (\<lambda>v. isLose v \<and> oneLine v) es\<rparr>"

text \<open>For the statements: the data rows of a record, the sum of two counter sets, and the
  summary blocks and states of the closed examples.\<close>

definition rows :: "(string \<times> cover_entry) list \<Rightarrow> string" where
  "rows al = concat (map (\<lambda>(key, v). rowLine key v) al)"

definition plus_counters :: "counters \<Rightarrow> counters \<Rightarrow> counters" where
  "plus_counters a b =
     \<lparr>totalProgCnt = totalProgCnt a + totalProgCnt b,
      totalWinCnt = totalWinCnt a + totalWinCnt b,
      totalEqualCnt = totalEqualCnt a + totalEqualCnt b,
      totalLoseCnt = totalLoseCnt a + totalLoseCnt b,
      oneLineProgCnt = oneLineProgCnt a + oneLineProgCnt b,
      oneLineWinCnt = oneLineWinCnt a + oneLineWinCnt b,
      oneLineEqualCnt = oneLineEqualCnt a + oneLineEqualCnt b,
      oneLineLoseCnt = oneLineLoseCnt a + oneLineLoseCnt b\<rparr>"

definition counters4 :: counters where
  "counters4 = \<lparr>totalProgCnt = 4, totalWinCnt = 2, totalEqualCnt = 1, totalLoseCnt = 1,
     oneLineProgCnt = 1, oneLineWinCnt = 1, oneLineEqualCnt = 0, oneLineLoseCnt = 0\<rparr>"

definition summary4 :: "int \<Rightarrow> string" where
  "summary4 failCnt =
     [CHR 0x0A] @ ''Evaluation Results of Contextual Effectiveness:'' @ [CHR 0x0A]
     @ ''Execution Fails:'' @ Itoa failCnt @ [CHR 0x0A]
     @ ''Total Progs: 4'' @ [CHR 0x0A]
     @ ''Total Win: 2'' @ [CHR 0x0A]
     @ ''Total Equal: 1'' @ [CHR 0x0A]
     @ ''Total Lose: 1'' @ [CHR 0x0A, CHR 0x0A]
     @ ''One-line Progs:1'' @ [CHR 0x0A]
     @ ''One-line Win:1'' @ [CHR 0x0A]
     @ ''One-line Equal:0'' @ [CHR 0x0A]
     @ ''One-line Lose:0'' @ [CHR 0x0A, CHR 0x0A]
     @ ''Overall Context Effective Rate (OCER): 50.00%'' @ [CHR 0x0A]
     @ ''Exclusive Context Effective Rate (ECER): 33.33%'' @ [CHR 0x0A]
     @ ''Context Effective Rate (CER): 25.00%'' @ [CHR 0x0A]"

definition summary_empty :: "int \<Rightarrow> string" where
  "summary_empty failCnt =
     [CHR 0x0A] @ ''Evaluation Results of Contextual Effectiveness:'' @ [CHR 0x0A]
     @ ''Execution Fails:'' @ Itoa failCnt @ [CHR 0x0A]
     @ ''Total Progs: 0'' @ [CHR 0x0A]
     @ ''Total Win: 0'' @ [CHR 0x0A]
     @ ''Total Equal: 0'' @ [CHR 0x0A]
     @ ''Total Lose: 0'' @ [CHR 0x0A, CHR 0x0A]
     @ ''One-line Progs:0'' @ [CHR 0x0A]
     @ ''One-line Win:0'' @ [CHR 0x0A]
     @ ''One-line Equal:0'' @ [CHR 0x0A]
     @ ''One-line Lose:0'' @ [CHR 0x0A, CHR 0x0A]
     @ ''Overall Context Effective Rate (OCER): NaN%'' @ [CHR 0x0A]
     @ ''Exclusive Context Effective Rate (ECER): NaN%'' @ [CHR 0x0A]
     @ ''Context Effective Rate (CER): NaN%'' @ [CHR 0x0A]"

definition st4 :: state where
  "st4 = state0\<lparr>coverRecord := [(''a'', (10, 7, 3)), (''b'', (5, 3, 1)), (''c'', (5, 5, 2)),
                                  (''d'', (2, 6, 4))]\<rparr>"

definition st_oneline :: state where
  "st_oneline = state0\<lparr>coverRecord := [(''b'', (5, 3, 1))]\<rparr>"

definition summary_oneline :: string where
  "summary_oneline =
     [CHR 0x0A] @ ''Evaluation Results of Contextual Effectiveness:'' @ [CHR 0x0A]
     @ ''Execution Fails:0'' @ [CHR 0x0A]
     @ ''Total Progs: 1'' @ [CHR 0x0A]
     @ ''Total Win: 1'' @ [CHR 0x0A]
     @ ''Total Equal: 0'' @ [CHR 0x0A]
     @ ''Total Lose: 0'' @ [CHR 0x0A, CHR 0x0A]
     @ ''One-line Progs:1'' @ [CHR 0x0A]
     @ ''One-line Win:1'' @ [CHR 0x0A]
     @ ''One-line Equal:0'' @ [CHR 0x0A]
     @ ''One-line Lose:0'' @ [CHR 0x0A, CHR 0x0A]
     @ ''Overall Context Effective Rate (OCER): 100.00%'' @ [CHR 0x0A]
     @ ''Exclusive Context Effective Rate (ECER): NaN%'' @ [CHR 0x0A]
     @ ''Context Effective Rate (CER): 0.00%'' @ [CHR 0x0A]"

subsection \<open>The two pools of \<open>main\<close>\<close>

text \<open>
  The part of \<open>main\<close> that runs the pools, as a transition system over the main
  goroutine and the workers. The main goroutine is at one of these places: before
  \<open>wg.Add(*flagProcs)\<close>; in the loop that starts the workers of the original pool, with
  the number started so far; at \<open>wg.Wait()\<close>; where \<open>revCtx\<close> is built and
  \<open>revWg.Add(*flagProcs)\<close> is called; in the loop that starts the reverse workers; at
  \<open>revWg.Wait()\<close>; at the report; returned. \<open>Dead\<close> is the process after a panic, a
  \<open>log.Fatalf\<close> or an exit on interrupts.
\<close>

datatype main_pc =
    AtAdd | AtSpawn nat | AtWait | AtRevAdd | AtRevSpawn nat | AtRevWait | AtReport
  | Finished | Dead

text \<open>
  An event is one step of the main goroutine, a dispatch by a running worker, the return
  of a worker from \<open>run\<close> (with its deferred \<open>wg.Done()\<close>), or the end of the process.
\<close>

datatype main_event =
    MainStep | OrigDispatch nat | OrigReturn nat | RevDispatch nat | RevReturn nat | Exit

text \<open>
  The state: the place of the main goroutine, the counters of the two wait groups, for
  each started worker whether it has returned, and the number of dispatches made by
  reverse workers.
\<close>

record main_state =
  mpc :: main_pc
  wg :: int
  revWg :: int
  origReturned :: "bool list"
  revReturned :: "bool list"
  revDispatches :: nat

definition main_init :: main_state where
  "main_init = \<lparr>mpc = AtAdd, wg = 0, revWg = 0, origReturned = [], revReturned = [],
                 revDispatches = 0\<rparr>"

definition live :: "main_state \<Rightarrow> bool" where
  "live s = (mpc s \<noteq> Finished \<and> mpc s \<noteq> Dead)"

text \<open>
  One step of the main goroutine. \<open>wg.Add\<close> panics on a negative count. \<open>Wait\<close> blocks
  while the counter is not 0: the step is not enabled (\<open>None\<close>).
\<close>

definition main_thread :: "int \<Rightarrow> bool \<Rightarrow> main_state \<Rightarrow> main_state option" where
  "main_thread procs semantic s =
     (case mpc s of
        AtAdd \<Rightarrow> if procs < 0 then Some (s\<lparr>mpc := Dead\<rparr>)
                 else Some (s\<lparr>wg := procs, mpc := AtSpawn 0\<rparr>)
      | AtSpawn p \<Rightarrow>
          if int p < procs
          then Some (s\<lparr>origReturned := origReturned s @ [False], mpc := AtSpawn (Suc p)\<rparr>)
          else Some (s\<lparr>mpc := AtWait\<rparr>)
      | AtWait \<Rightarrow>
          if wg s = 0 then Some (s\<lparr>mpc := (if semantic then AtRevAdd else AtReport)\<rparr>)
          else None
      | AtRevAdd \<Rightarrow> Some (s\<lparr>revWg := procs, mpc := AtRevSpawn 0\<rparr>)
      | AtRevSpawn p \<Rightarrow>
          if int p < procs
          then Some (s\<lparr>revReturned := revReturned s @ [False], mpc := AtRevSpawn (Suc p)\<rparr>)
          else Some (s\<lparr>mpc := AtRevWait\<rparr>)
      | AtRevWait \<Rightarrow> if revWg s = 0 then Some (s\<lparr>mpc := AtReport\<rparr>) else None
      | AtReport \<Rightarrow> Some (s\<lparr>mpc := Finished\<rparr>)
      | Finished \<Rightarrow> None
      | Dead \<Rightarrow> None)"

text \<open>One event. A worker that has returned, or was never started, does nothing.\<close>

definition main_step :: "int \<Rightarrow> bool \<Rightarrow> main_event \<Rightarrow> main_state \<Rightarrow> main_state option" where
  "main_step procs semantic ev s =
     (if \<not> live s then None
      else case ev of
        MainStep \<Rightarrow> main_thread procs semantic s
      | Exit \<Rightarrow> Some (s\<lparr>mpc := Dead\<rparr>)
      | OrigDispatch i \<Rightarrow>
          if i < length (origReturned s) \<and> \<not> origReturned s ! i then Some s else None
      | OrigReturn i \<Rightarrow>
          if i < length (origReturned s) \<and> \<not> origReturned s ! i
          then Some (s\<lparr>origReturned := (origReturned s)[i := True], wg := wg s - 1\<rparr>)
          else None
      | RevDispatch i \<Rightarrow>
          if i < length (revReturned s) \<and> \<not> revReturned s ! i
          then Some (s\<lparr>revDispatches := Suc (revDispatches s)\<rparr>)
          else None
      | RevReturn i \<Rightarrow>
          if i < length (revReturned s) \<and> \<not> revReturned s ! i
          then Some (s\<lparr>revReturned := (revReturned s)[i := True], revWg := revWg s - 1\<rparr>)
          else None)"

fun main_run :: "int \<Rightarrow> bool \<Rightarrow> main_event list \<Rightarrow> main_state \<Rightarrow> main_state option" where
  "main_run procs semantic [] s = Some s"
| "main_run procs semantic (ev # evs) s =
     (case main_step procs semantic ev s of
        None \<Rightarrow> None
      | Some s' \<Rightarrow> main_run procs semantic evs s')"

text \<open>For the statements: every original worker was started and has returned; a reverse
  worker exists or has dispatched; the invariant; a sample schedule.\<close>

definition orig_done :: "int \<Rightarrow> main_state \<Rightarrow> bool" where
  "orig_done procs s =
     (int (length (origReturned s)) = procs \<and> count_list (origReturned s) True = length (origReturned s))"

definition rev_started :: "main_state \<Rightarrow> bool" where
  "rev_started s = (revReturned s \<noteq> [] \<or> 0 < revDispatches s)"

definition main_inv :: "int \<Rightarrow> main_state \<Rightarrow> bool" where
  "main_inv procs s \<longleftrightarrow>
     (rev_started s \<longrightarrow> orig_done procs s) \<and>
     (case mpc s of
        AtAdd \<Rightarrow> origReturned s = [] \<and> \<not> rev_started s
      | AtSpawn p \<Rightarrow> length (origReturned s) = p \<and> int p \<le> procs
          \<and> wg s = procs - int (count_list (origReturned s) True) \<and> \<not> rev_started s
      | AtWait \<Rightarrow> int (length (origReturned s)) = procs
          \<and> wg s = procs - int (count_list (origReturned s) True) \<and> \<not> rev_started s
      | AtRevAdd \<Rightarrow> orig_done procs s \<and> \<not> rev_started s
      | AtRevSpawn p \<Rightarrow> orig_done procs s
      | AtRevWait \<Rightarrow> orig_done procs s
      | AtReport \<Rightarrow> True
      | Finished \<Rightarrow> True
      | Dead \<Rightarrow> True)"

definition sched_dual :: "main_event list" where
  "sched_dual = [MainStep, MainStep, MainStep, OrigDispatch 0, MainStep, OrigReturn 1,
                 OrigDispatch 0, OrigReturn 0, MainStep, MainStep, MainStep, RevDispatch 0]"

section \<open>Properties\<close>

subsection \<open>Formatting is injective\<close>

lemma lt16_cases: "d < 16 \<Longrightarrow> d \<in> {0,1,2,3,4,5,6,7,8,9,10,11,12,13,14,15::nat}"
  by simp arith

lemma digit_val_char: "d < 16 \<Longrightarrow> digit_val (digit_char d) = d"
  by (drule lt16_cases) (auto simp: digit_char_def digit_val_def)

lemma unfmt_snoc: "unfmt b (s @ [c]) = unfmt b s * b + digit_val c"
  by (simp add: unfmt_def)

lemma unfmt_fmt_nat: "2 \<le> b \<Longrightarrow> b \<le> 16 \<Longrightarrow> unfmt b (fmt_nat b n) = n"
proof (induction b n rule: fmt_nat.induct)
  case (1 b n)
  show ?case
  proof (cases "n < b")
    case True
    with 1 show ?thesis
      by (subst fmt_nat.simps) (simp add: unfmt_def digit_val_char)
  next
    case False
    with 1 have "unfmt b (fmt_nat b (n div b)) = n div b" by simp
    moreover have "n mod b < b" using 1 by simp
    then have "n mod b < 16" using 1(3) by linarith
    ultimately show ?thesis using False 1
      by (subst fmt_nat.simps) (simp add: unfmt_snoc digit_val_char)
  qed
qed

lemma fmt_nat_inj: "2 \<le> b \<Longrightarrow> b \<le> 16 \<Longrightarrow> fmt_nat b n = fmt_nat b m \<Longrightarrow> n = m"
  by (metis unfmt_fmt_nat)

lemma fmt_nat_digits: "2 \<le> b \<Longrightarrow> c \<in> set (fmt_nat b n) \<Longrightarrow> \<exists>d<b. c = digit_char d"
proof (induction b n rule: fmt_nat.induct)
  case (1 b n)
  show ?case
  proof (cases "n < b")
    case True
    with 1 show ?thesis by (subst (asm) (2) fmt_nat.simps) auto
  next
    case False
    with 1 show ?thesis
      apply (subst (asm) (2) fmt_nat.simps) 
      apply (auto)
      by (rule exI [of _ "n mod b"]) simp
  qed
qed

lemma lt10_cases: "d < 10 \<Longrightarrow> d \<in> {0,1,2,3,4,5,6,7,8,9::nat}"
  by simp arith

lemma dec_digit: "c \<in> set (fmt_nat 10 n) \<Longrightarrow> c \<in> set ''0123456789''"
  by (drule fmt_nat_digits [rotated]) (auto simp: digit_char_def dest!: lt10_cases)

lemma fmt_nat_nonempty: "fmt_nat b n \<noteq> []"
  by (subst fmt_nat.simps) simp

lemma Itoa_nat_inj: "Itoa (int i) = Itoa (int j) \<Longrightarrow> i = j"
  using fmt_nat_inj [of 10 i j] by (simp add: Itoa_def)

lemma Itoa_nat_not_total: "Itoa (int i) \<noteq> ''total''" "Itoa (int i) \<noteq> ''extra''"
  using dec_digit [of "CHR ''t''" i] dec_digit [of "CHR ''e''" i] 
  by (auto simp: Itoa_def)

lemma Sprintf_0x_inj: "Sprintf_0x v = Sprintf_0x w \<Longrightarrow> v = w"
  using fmt_nat_inj [of 16 "unat v" "unat w"] by (simp add: Sprintf_0x_def word_unat_eq_iff)

subsection \<open>Writes to the coverage record\<close>

lemma map_of_update_other:
  "k \<noteq> key \<Longrightarrow> map_of (AList.update key v al) k = map_of al k"
  by (simp add: update_conv')

lemma update_fresh: "map_of al key = None \<Longrightarrow> AList.update key v al = al @ [(key, v)]"
  by (induction al) (auto split: if_splits)

lemma getCoverRecord_cong:
  "map_of (coverRecord sts) key = map_of (coverRecord stl) key \<Longrightarrow>
   getCoverRecord key stl = getCoverRecord key sts"
  by (simp add: getCoverRecord_def)

lemma recordCoverage_uninterrupted:
  fixes coverFile :: string and st :: state and covType covNum progLength :: int
  defines "key \<equiv> TrimSuffix coverFile ''.rev''"
  defines "st' \<equiv> recordCoverage coverFile covType covNum progLength st"
  shows "(covType = 0 \<and> map_of (coverRecord st) key = None \<longrightarrow>
            coverRecord st' = coverRecord st @ [(key, (covNum, 0, progLength))] \<and>
            logs st' = logs st)
       \<and> (covType = 0 \<and> map_of (coverRecord st) key \<noteq> None \<longrightarrow>
            coverRecord st' = coverRecord st \<and>
            logs st' = logs st @ [LogRepeatedProg key])
       \<and> (covType \<noteq> 0 \<and> map_of (coverRecord st) key = None \<longrightarrow>
            coverRecord st' = coverRecord st \<and>
            logs st' = logs st @ [LogNonExistedOrigin key])
       \<and> (\<forall>c0 c1 len. covType \<noteq> 0 \<and> map_of (coverRecord st) key = Some (c0, c1, len) \<longrightarrow>
            map_of (coverRecord st') key = Some (c0, covNum, progLength) \<and>
            map fst (coverRecord st') = map fst (coverRecord st) \<and>
            logs st' = logs st)
       \<and> (\<forall>k. k \<noteq> key \<longrightarrow> map_of (coverRecord st') k = map_of (coverRecord st) k)"
proof (cases "map_of (coverRecord st) key")
  case None
  then show ?thesis
    unfolding st'_def recordCoverage_def recordStore_def getCoverRecord_def setCoverRecord_def
      Let_def
    by (auto simp: key_def [symmetric] update_fresh map_add_def split: option.splits)
next
  case (Some e)
  obtain c0 c1 len where e: "e = (c0, c1, len)" by (cases e)
  show ?thesis
    unfolding st'_def recordCoverage_def recordStore_def getCoverRecord_def setCoverRecord_def
      Let_def
    using Some e map_of_eq_None_iff [of "coverRecord st" key]
    by (simp add: key_def [symmetric] update_conv' update_keys map_of_update_other)
qed

text \<open>
  C5, as the code has it. Let \<open>key\<close> be the cover-file name without a trailing \<open>.rev\<close>.
  Take a write whose lookup ran on the state \<open>stl\<close> and whose store runs on the state
  \<open>sts\<close>, where no other worker has stored to \<open>key\<close> in between (the entry of \<open>key\<close> is
  the same in both; the uninterrupted \<open>recordCoverage\<close> is the case \<open>stl = sts\<close>). In
  original mode the write creates the entry \<open>(covNum, 0, progLength)\<close> when the key has no
  entry, and otherwise logs the anomaly and leaves the record as it is. In reverse mode it
  logs the anomaly and leaves the record as it is when the key has no entry; when it has
  one, the write keeps the original coverage, sets the reverse coverage, and also replaces
  the stored length by the length of the reverse run. No write touches another key.
\<close>

theorem recordCoverage_cases:
  fixes coverFile :: string and stl sts :: state and covType covNum progLength :: int
  defines "key \<equiv> TrimSuffix coverFile ''.rev''"
  defines "st' \<equiv> recordStore coverFile covType covNum progLength (getCoverRecord key stl) sts"
  assumes same: "map_of (coverRecord sts) key = map_of (coverRecord stl) key"
  shows "recordCoverage coverFile covType covNum progLength sts
           = recordStore coverFile covType covNum progLength (getCoverRecord key sts) sts
       \<and> (covType = 0 \<and> map_of (coverRecord sts) key = None \<longrightarrow>
            coverRecord st' = coverRecord sts @ [(key, (covNum, 0, progLength))] \<and>
            logs st' = logs sts)
       \<and> (covType = 0 \<and> map_of (coverRecord sts) key \<noteq> None \<longrightarrow>
            coverRecord st' = coverRecord sts \<and>
            logs st' = logs sts @ [LogRepeatedProg key])
       \<and> (covType \<noteq> 0 \<and> map_of (coverRecord sts) key = None \<longrightarrow>
            coverRecord st' = coverRecord sts \<and>
            logs st' = logs sts @ [LogNonExistedOrigin key])
       \<and> (\<forall>c0 c1 len. covType \<noteq> 0 \<and> map_of (coverRecord sts) key = Some (c0, c1, len) \<longrightarrow>
            map_of (coverRecord st') key = Some (c0, covNum, progLength) \<and>
            map fst (coverRecord st') = map fst (coverRecord sts) \<and>
            logs st' = logs sts)
       \<and> (\<forall>k. k \<noteq> key \<longrightarrow> map_of (coverRecord st') k = map_of (coverRecord sts) k)"
proof -
  have l: "getCoverRecord key stl = getCoverRecord key sts"
    using same by (rule getCoverRecord_cong)
  have r: "recordCoverage coverFile covType covNum progLength sts
           = recordStore coverFile covType covNum progLength (getCoverRecord key sts) sts"
    by (simp add: recordCoverage_def key_def)
  have s: "st' = recordCoverage coverFile covType covNum progLength sts"
    by (simp add: st'_def l r)
  show ?thesis
    unfolding s key_def
    using r recordCoverage_uninterrupted [of covType sts coverFile covNum progLength]
    by (simp add: key_def)
qed

theorem recordCoverage_cases_witness:
  "coverRecord (recordCoverage ''cov_a'' 0 10 3 state0) = [(''cov_a'', (10, 0, 3))]
   \<and> coverRecord (recordCoverage ''cov_a'' 0 12 4 st_orig) = [(''cov_a'', (10, 0, 3))]
   \<and> logs (recordCoverage ''cov_a'' 0 12 4 st_orig) = [LogRepeatedProg ''cov_a'']
   \<and> coverRecord (recordCoverage ''cov_b.rev'' 1 7 3 st_orig) = [(''cov_a'', (10, 0, 3))]
   \<and> logs (recordCoverage ''cov_b.rev'' 1 7 3 st_orig) = [LogNonExistedOrigin ''cov_b'']
   \<and> map_of (coverRecord (recordCoverage ''cov_a.rev'' 1 7 3 st_orig)) ''cov_a'' = Some (10, 7, 3)
   \<and> map_of (coverRecord (recordCoverage ''cov_a.rev'' 1 7 3 st_orig)) ''cov_b'' = None
   \<and> map_of (coverRecord (recordStore ''cov_a.rev'' 1 7 3 (getCoverRecord ''cov_a'' st_orig)
                               st_other)) ''cov_a'' = Some (10, 7, 3)
   \<and> map_of (coverRecord (recordStore ''cov_a.rev'' 1 7 3 (getCoverRecord ''cov_a'' st_orig)
                               st_other)) ''cov_b'' = Some (4, 0, 1)"
proof -
  have t: "TrimSuffix ''cov_a'' ''.rev'' = ''cov_a''" "TrimSuffix ''cov_a.rev'' ''.rev'' = ''cov_a''"
    "TrimSuffix ''cov_b.rev'' ''.rev'' = ''cov_b''"
    by (simp_all add: TrimSuffix_def HasSuffix_def)
  have m: "map_of (coverRecord state0) ''cov_a'' = None"
    "map_of (coverRecord st_orig) ''cov_a'' = Some (10, 0, 3)"
    "map_of (coverRecord st_orig) ''cov_b'' = None"
    "map_of (coverRecord st_other) ''cov_a'' = Some (10, 0, 3)"
    "map_of (coverRecord st_other) ''cov_b'' = Some (4, 0, 1)"
    by (simp_all add: st_orig_def st_other_def state0_def)
  note a = recordCoverage_cases [where covType = 0 and stl = state0 and sts = state0
      and coverFile = "''cov_a''" and covNum = 10 and progLength = 3, unfolded t]
  note b = recordCoverage_cases [where covType = 0 and stl = st_orig and sts = st_orig
      and coverFile = "''cov_a''" and covNum = 12 and progLength = 4, unfolded t]
  note c = recordCoverage_cases [where covType = 1 and stl = st_orig and sts = st_orig
      and coverFile = "''cov_b.rev''" and covNum = 7 and progLength = 3, unfolded t]
  note d = recordCoverage_cases [where covType = 1 and stl = st_orig and sts = st_orig
      and coverFile = "''cov_a.rev''" and covNum = 7 and progLength = 3, unfolded t]
  note e = recordCoverage_cases [where covType = 1 and stl = st_orig and sts = st_other
      and coverFile = "''cov_a.rev''" and covNum = 7 and progLength = 3, unfolded t]
  have 1: "coverRecord (recordCoverage ''cov_a'' 0 10 3 state0) = [(''cov_a'', (10, 0, 3))]"
    using a m by (simp add: state0_def)
  have 2: "coverRecord (recordCoverage ''cov_a'' 0 12 4 st_orig) = [(''cov_a'', (10, 0, 3))]
      \<and> logs (recordCoverage ''cov_a'' 0 12 4 st_orig) = [LogRepeatedProg ''cov_a'']"
    using b m by (simp add: st_orig_def state0_def)
  have 3: "coverRecord (recordCoverage ''cov_b.rev'' 1 7 3 st_orig) = [(''cov_a'', (10, 0, 3))]
      \<and> logs (recordCoverage ''cov_b.rev'' 1 7 3 st_orig) = [LogNonExistedOrigin ''cov_b'']"
    using c m by (simp add: st_orig_def state0_def)
  have 4: "map_of (coverRecord (recordCoverage ''cov_a.rev'' 1 7 3 st_orig)) ''cov_a'' = Some (10, 7, 3)
      \<and> map_of (coverRecord (recordCoverage ''cov_a.rev'' 1 7 3 st_orig)) ''cov_b'' = None"
    using d m by simp
  have 5: "map_of (coverRecord (recordStore ''cov_a.rev'' 1 7 3 (getCoverRecord ''cov_a'' st_orig)
                               st_other)) ''cov_a'' = Some (10, 7, 3)
      \<and> map_of (coverRecord (recordStore ''cov_a.rev'' 1 7 3 (getCoverRecord ''cov_a'' st_orig)
                               st_other)) ''cov_b'' = Some (4, 0, 1)"
    using e m by simp
  from 1 2 3 4 5 show ?thesis by simp
qed

text \<open>
  The reverse write is not confined to the reverse coverage: an entry recorded with length
  3 has length 2 after the reverse run of a two-call program.
\<close>

theorem recordCoverage_reverse_changes_length:
  "map_of (coverRecord st_orig) ''cov_a'' = Some (10, 0, 3)
   \<and> map_of (coverRecord (recordCoverage ''cov_a.rev'' 1 7 2 st_orig)) ''cov_a'' = Some (10, 7, 2)"
  by (simp add: st_orig_def state0_def recordCoverage_def recordStore_def getCoverRecord_def
        setCoverRecord_def TrimSuffix_def HasSuffix_def)

text \<open>
  What the statement above leaves out: when the store of another worker to the same key
  falls between the lookup and the store, the lookup is stale. Two original writes to
  \<open>cov_a\<close> that both look up the empty record: after the first has stored, the second
  stores over it, and no anomaly is logged.
\<close>

lemma recordStore_stale_lookup:
  "coverRecord (recordStore ''cov_a'' 0 12 4 (getCoverRecord ''cov_a'' state0)
                 (recordStore ''cov_a'' 0 10 3 (getCoverRecord ''cov_a'' state0) state0))
     = [(''cov_a'', (12, 0, 4))]
   \<and> logs (recordStore ''cov_a'' 0 12 4 (getCoverRecord ''cov_a'' state0)
                 (recordStore ''cov_a'' 0 10 3 (getCoverRecord ''cov_a'' state0) state0)) = []"
  by (simp add: state0_def recordStore_def getCoverRecord_def setCoverRecord_def
        TrimSuffix_def HasSuffix_def)

subsection \<open>The coverage dump\<close>

lemma WriteFile_Some:
  "WriteFile name data st = Some st' \<longleftrightarrow> \<not> unwritable st name \<and> st' = st\<lparr>files := (files st)(name \<mapsto> data)\<rparr>"
  by (auto simp: WriteFile_def)

lemma dumpCallCoverage_Inr:
  "dumpCallCoverage R name ci st = Inr st' \<longleftrightarrow>
     (if Cover ci = [] then st' = st
      else \<not> unwritable st name \<and> st' = st\<lparr>files := (files st)(name \<mapsto> coverLines R (Cover ci))\<rparr>)"
  by (auto simp: dumpCallCoverage_def WriteFile_def)

lemma callFile_inj: "callFile cf i = callFile cf j \<Longrightarrow> i = j"
  by (simp add: callFile_def Itoa_nat_inj)

lemma callFile_not_total: "callFile cf i \<noteq> cf @ ''.total''" "callFile cf i \<noteq> cf @ ''.extra''"
  using Itoa_nat_not_total [of i] by (auto simp: callFile_def)

lemma dumpCalls_off:
  "flagNoDumpCall fl \<or> flagSemantic fl \<Longrightarrow> dumpCalls fl R cf i calls st = Inr st"
  by (induction calls arbitrary: i) auto

lemma dumpCalls_frame:
  "dumpCalls fl R cf i calls st = Inr st' \<Longrightarrow>
     unwritable st' = unwritable st \<and> coverRecord st' = coverRecord st \<and> logs st' = logs st
     \<and> execFailCnt st' = execFailCnt st \<and> slept st' = slept st"
proof (induction calls arbitrary: i st)
  case Nil
  then show ?case by simp
next
  case (Cons c calls)
  show ?case
  proof (cases "\<not> flagNoDumpCall fl \<and> \<not> flagSemantic fl")
    case True
    then obtain st1 where a: "dumpCallCoverage R (cf @ ''.'' @ Itoa (int i)) c st = Inr st1"
      and b: "dumpCalls fl R cf (Suc i) calls st1 = Inr st'"
      using Cons.prems by (auto split: sum.splits)
    from a have "unwritable st1 = unwritable st \<and> coverRecord st1 = coverRecord st \<and> logs st1 = logs st
       \<and> execFailCnt st1 = execFailCnt st \<and> slept st1 = slept st"
      by (auto simp: dumpCallCoverage_Inr split: if_splits)
    with Cons.IH [OF b] show ?thesis by simp
  next
    case False
    with Cons show ?thesis by auto
  qed
qed

lemma dumpCalls_other_files:
  "dumpCalls fl R cf i calls st = Inr st' \<Longrightarrow> \<forall>j. name \<noteq> callFile cf j \<Longrightarrow>
     files st' name = files st name"
proof (induction calls arbitrary: i st)
  case Nil
  then show ?case by simp
next
  case (Cons c calls)
  show ?case
  proof (cases "\<not> flagNoDumpCall fl \<and> \<not> flagSemantic fl")
    case True
    then obtain st1 where a: "dumpCallCoverage R (callFile cf i) c st = Inr st1"
      and b: "dumpCalls fl R cf (Suc i) calls st1 = Inr st'"
      using Cons.prems by (auto simp: callFile_def split: sum.splits)
    from a Cons.prems(2) have "files st1 name = files st name"
      by (auto simp: dumpCallCoverage_Inr split: if_splits)
    with Cons.IH [OF b Cons.prems(2)] show ?thesis by simp
  next
    case False
    with Cons show ?thesis by auto
  qed
qed

lemma dumpCalls_earlier_files:
  "dumpCalls fl R cf i calls st = Inr st' \<Longrightarrow> k < i \<Longrightarrow>
     files st' (callFile cf k) = files st (callFile cf k)"
proof (induction calls arbitrary: i st)
  case Nil
  then show ?case by simp
next
  case (Cons c calls)
  show ?case
  proof (cases "\<not> flagNoDumpCall fl \<and> \<not> flagSemantic fl")
    case True
    then obtain st1 where a: "dumpCallCoverage R (callFile cf i) c st = Inr st1"
      and b: "dumpCalls fl R cf (Suc i) calls st1 = Inr st'"
      using Cons.prems by (auto simp: callFile_def split: sum.splits)
    have "callFile cf k \<noteq> callFile cf i" using Cons.prems(2) callFile_inj by blast
    with a have "files st1 (callFile cf k) = files st (callFile cf k)"
      by (auto simp: dumpCallCoverage_Inr split: if_splits)
    moreover have "files st' (callFile cf k) = files st1 (callFile cf k)"
      using Cons.IH [OF b] Cons.prems(2) by simp
    ultimately show ?thesis by simp
  next
    case False
    with Cons show ?thesis by auto
  qed
qed

lemma dumpCalls_written:
  "dumpCalls fl R cf i calls st = Inr st' \<Longrightarrow> \<not> flagNoDumpCall fl \<Longrightarrow> \<not> flagSemantic fl \<Longrightarrow>
     j < length calls \<Longrightarrow> Cover (calls ! j) \<noteq> [] \<Longrightarrow>
     files st' (callFile cf (i + j)) = Some (coverLines R (Cover (calls ! j)))"
proof (induction calls arbitrary: i j st)
  case Nil
  then show ?case by simp
next
  case (Cons c calls)
  from Cons.prems obtain st1 where a: "dumpCallCoverage R (callFile cf i) c st = Inr st1"
      and b: "dumpCalls fl R cf (Suc i) calls st1 = Inr st'"
    by (auto simp: callFile_def split: sum.splits)
  show ?case
  proof (cases j)
    case 0
    with Cons.prems a have "files st1 (callFile cf i) = Some (coverLines R (Cover c))"
      by (auto simp: dumpCallCoverage_Inr)
    moreover have "files st' (callFile cf i) = files st1 (callFile cf i)"
      using dumpCalls_earlier_files [OF b, of i] by simp
    ultimately show ?thesis using 0 by simp
  next
    case (Suc j')
    with Cons.prems have "j' < length calls" "Cover (calls ! j') \<noteq> []" by auto
    from Cons.IH [OF b Cons.prems(2,3) this] show ?thesis using Suc by simp
  qed
qed

lemma dumpCalls_returns:
  "\<forall>n. \<not> unwritable st n \<Longrightarrow> \<exists>st'. dumpCalls fl R cf i calls st = Inr st'"
proof (induction calls arbitrary: i st)
  case Nil
  then show ?case by simp
next
  case (Cons c calls)
  show ?case
  proof (cases "\<not> flagNoDumpCall fl \<and> \<not> flagSemantic fl")
    case True
    obtain st1 where a: "dumpCallCoverage R (cf @ ''.'' @ Itoa (int i)) c st = Inr st1"
      using Cons.prems by (cases "Cover c = []") (auto simp: dumpCallCoverage_def WriteFile_def)
    then have "\<forall>n. \<not> unwritable st1 n" using Cons.prems
      by (auto simp: dumpCallCoverage_Inr split: if_splits)
    from Cons.IH [OF this] a True show ?thesis by auto
  next
    case False
    with Cons show ?thesis by auto
  qed
qed

lemma addPC_fold:
  "foldl (\<lambda>acc x. addPC acc (f x)) (tm, n) xs = (tm', n') \<Longrightarrow>
     distinct tm \<Longrightarrow> n = int (length tm) \<Longrightarrow>
     distinct tm' \<and> n' = int (length tm') \<and> set tm' = set tm \<union> f ` set xs"
proof (induction xs arbitrary: tm n)
  case Nil
  then show ?case by auto
next
  case (Cons x xs)
  show ?case
  proof (cases "f x \<in> set tm")
    case True
    with Cons.prems have "foldl (\<lambda>acc x. addPC acc (f x)) (tm, n) xs = (tm', n')"
      by (simp add: addPC_def)
    from Cons.IH [OF this Cons.prems(2,3)] True show ?thesis by auto
  next
    case False
    with Cons.prems have "foldl (\<lambda>acc x. addPC acc (f x)) (tm @ [f x], n + 1) xs = (tm', n')"
      by (simp add: addPC_def)
    from Cons.IH [OF this] False Cons.prems(2,3) show ?thesis by auto
  qed
qed

lemma totalCoverage_fold:
  "foldl (\<lambda>(totalMap, covNum, progLength) cinf.
              case foldl (\<lambda>acc pc. addPC acc (Sprintf_0x (R pc 0xffffffff)))
                     (totalMap, covNum) (Cover cinf) of
                (totalMap', covNum') \<Rightarrow> (totalMap', covNum', progLength + 1))
       (tm, n, l) calls = (tm', n', l') \<Longrightarrow>
   distinct tm \<Longrightarrow> n = int (length tm) \<Longrightarrow>
   distinct tm' \<and> n' = int (length tm') \<and> set tm' = set tm \<union> Sprintf_0x ` restored R calls
   \<and> l' = l + int (length calls)"
proof (induction calls arbitrary: tm n l)
  case Nil
  then show ?case by (auto simp: restored_def)
next
  case (Cons c calls)
  obtain tm1 n1 where s: "foldl (\<lambda>acc pc. addPC acc (Sprintf_0x (R pc 0xffffffff))) (tm, n) (Cover c) = (tm1, n1)"
    by (cases "foldl (\<lambda>acc pc. addPC acc (Sprintf_0x (R pc 0xffffffff))) (tm, n) (Cover c)")
  from addPC_fold [OF s Cons.prems(2,3)]
  have 1: "distinct tm1" "n1 = int (length tm1)"
    "set tm1 = set tm \<union> (\<lambda>pc. Sprintf_0x (R pc 0xffffffff)) ` set (Cover c)" by auto
  from Cons.prems(1) s have "foldl (\<lambda>(totalMap, covNum, progLength) cinf.
              case foldl (\<lambda>acc pc. addPC acc (Sprintf_0x (R pc 0xffffffff)))
                     (totalMap, covNum) (Cover cinf) of
                (totalMap', covNum') \<Rightarrow> (totalMap', covNum', progLength + 1))
       (tm1, n1, l + 1) calls = (tm', n', l')" by simp
  moreover have "Sprintf_0x ` restored R (c # calls) =
      (\<lambda>pc. Sprintf_0x (R pc 0xffffffff)) ` set (Cover c) \<union> Sprintf_0x ` restored R calls"
    by (simp add: restored_def image_Un image_image)
  ultimately show ?case
    using Cons.IH [of tm1 n1 "l + 1"] 1 by (simp add: Un_assoc)
qed

lemma totalCoverage_union:
  assumes "totalCoverage R calls = (totalMap, covNum, progLength)"
  shows "distinct totalMap \<and> set totalMap = Sprintf_0x ` restored R calls
     \<and> length totalMap = card (restored R calls) \<and> covNum = int (card (restored R calls))
     \<and> progLength = int (length calls)"
proof -
  from assms have d: "distinct totalMap" and n: "covNum = int (length totalMap)"
    and s: "set totalMap = Sprintf_0x ` restored R calls" and l: "progLength = int (length calls)"
    using totalCoverage_fold [of R "[]" 0 0 calls totalMap covNum progLength]
    by (auto simp: totalCoverage_def)
  have "inj_on Sprintf_0x (restored R calls)"
    by (rule inj_onI) (rule Sprintf_0x_inj)
  then have "card (Sprintf_0x ` restored R calls) = card (restored R calls)"
    by (rule card_image)
  moreover have "length totalMap = card (set totalMap)"
    using d by (simp add: distinct_card)
  ultimately show ?thesis using d n s l by simp
qed

lemma recordCoverage_frame:
  "files (recordCoverage cf ct n l st) = files st \<and> unwritable (recordCoverage cf ct n l st) = unwritable st"
  by (simp add: recordCoverage_def recordStore_def getCoverRecord_def setCoverRecord_def Let_def split: option.splits prod.splits)

lemma recordCoverage_cong:
  "coverRecord st1 = coverRecord st \<Longrightarrow>
   coverRecord (recordCoverage cf ct n l st1) = coverRecord (recordCoverage cf ct n l st)"
  by (simp add: recordCoverage_def recordStore_def getCoverRecord_def setCoverRecord_def Let_def split: option.splits prod.splits)

lemma dumpCoverage_Inr:
  assumes "dumpCoverage fl R cf info covType st = Inr st'"
  obtains st1 totalMap covNum progLength st3 where
    "dumpCalls fl R cf 0 (Calls info) st = Inr st1"
    "totalCoverage R (Calls info) = (totalMap, covNum, progLength)"
    "st3 = (recordCoverage cf covType covNum progLength st1)
             \<lparr>files := (files st1)(cf @ ''.total'' \<mapsto> concat (map (\<lambda>pc. pc @ [CHR 0x0A]) totalMap))\<rparr>"
    "dumpCallCoverage R (cf @ ''.extra'') (Extra info) st3 = Inr st'"
proof -
  obtain totalMap covNum progLength where t: "totalCoverage R (Calls info) = (totalMap, covNum, progLength)"
    by (cases "totalCoverage R (Calls info)")
  from assms obtain st1 where 1: "dumpCalls fl R cf 0 (Calls info) st = Inr st1"
    by (auto simp: dumpCoverage_def split: sum.splits)
  from assms 1 t obtain st3 where 3: "WriteFile (cf @ ''.total'') (concat (map (\<lambda>pc. pc @ [CHR 0x0A]) totalMap))
                       (recordCoverage cf covType covNum progLength st1) = Some st3"
     and 4: "dumpCallCoverage R (cf @ ''.extra'') (Extra info) st3 = Inr st'"
    by (auto simp: dumpCoverage_def split: option.splits)
  from 3 have "st3 = (recordCoverage cf covType covNum progLength st1)
             \<lparr>files := (files st1)(cf @ ''.total'' \<mapsto> concat (map (\<lambda>pc. pc @ [CHR 0x0A]) totalMap))\<rparr>"
    by (simp add: WriteFile_Some recordCoverage_frame)
  with 1 t 4 that show thesis by blast
qed

lemma dumpCoverage_returns:
  assumes "\<forall>n. \<not> unwritable st n"
  shows "\<exists>st'. dumpCoverage fl R cf info covType st = Inr st'"
proof -
  obtain st1 where 1: "dumpCalls fl R cf 0 (Calls info) st = Inr st1"
    using dumpCalls_returns [OF assms] by blast
  then have u: "unwritable st1 = unwritable st" by (simp add: dumpCalls_frame)
  obtain totalMap covNum progLength where t: "totalCoverage R (Calls info) = (totalMap, covNum, progLength)"
    by (cases "totalCoverage R (Calls info)")
  show ?thesis using 1 t u assms
    by (simp add: dumpCoverage_def WriteFile_def recordCoverage_frame dumpCallCoverage_def)
qed

lemma dumpCoverage_call_file:
  assumes "dumpCoverage fl R cf info covType st = Inr st'"
    and "\<not> flagNoDumpCall fl" "\<not> flagSemantic fl"
    and "i < length (Calls info)" "Cover (Calls info ! i) \<noteq> []"
  shows "files st' (callFile cf i) = Some (coverLines R (Cover (Calls info ! i)))"
proof -
  from assms(1) obtain st1 totalMap covNum progLength st3 where
    1: "dumpCalls fl R cf 0 (Calls info) st = Inr st1" and
    3: "st3 = (recordCoverage cf covType covNum progLength st1)
             \<lparr>files := (files st1)(cf @ ''.total'' \<mapsto> concat (map (\<lambda>pc. pc @ [CHR 0x0A]) totalMap))\<rparr>" and
    4: "dumpCallCoverage R (cf @ ''.extra'') (Extra info) st3 = Inr st'"
    by (rule dumpCoverage_Inr)
  have "files st1 (callFile cf i) = Some (coverLines R (Cover (Calls info ! i)))"
    using dumpCalls_written [OF 1 assms(2,3,4,5)] by simp
  then have "files st3 (callFile cf i) = Some (coverLines R (Cover (Calls info ! i)))"
    using 3 callFile_not_total(1) [of cf i] by simp
  then show ?thesis
    using 4 callFile_not_total(2) [of cf i] by (auto simp: dumpCallCoverage_Inr split: if_splits)
qed

lemma dumpCoverage_total_file:
  assumes "dumpCoverage fl R cf info covType st = Inr st'"
  shows "\<exists>keys. files st' (cf @ ''.total'') = Some (concat (map (\<lambda>pc. pc @ [CHR 0x0A]) keys))
       \<and> distinct keys \<and> set keys = Sprintf_0x ` restored R (Calls info)
       \<and> length keys = card (restored R (Calls info))
       \<and> coverRecord st' = coverRecord (recordCoverage cf covType
             (int (card (restored R (Calls info)))) (int (length (Calls info))) st)"
proof -
  from assms(1) obtain st1 totalMap covNum progLength st3 where
    1: "dumpCalls fl R cf 0 (Calls info) st = Inr st1" and
    2: "totalCoverage R (Calls info) = (totalMap, covNum, progLength)" and
    3: "st3 = (recordCoverage cf covType covNum progLength st1)
             \<lparr>files := (files st1)(cf @ ''.total'' \<mapsto> concat (map (\<lambda>pc. pc @ [CHR 0x0A]) totalMap))\<rparr>" and
    4: "dumpCallCoverage R (cf @ ''.extra'') (Extra info) st3 = Inr st'"
    by (rule dumpCoverage_Inr)
  note u = totalCoverage_union [OF 2]
  have c1: "coverRecord st1 = coverRecord st" using 1 by (simp add: dumpCalls_frame)
  have "files st' (cf @ ''.total'') = files st3 (cf @ ''.total'')"
    using 4 by (auto simp: dumpCallCoverage_Inr split: if_splits)
  then have f: "files st' (cf @ ''.total'') = Some (concat (map (\<lambda>pc. pc @ [CHR 0x0A]) totalMap))"
    using 3 by simp
  have "coverRecord st' = coverRecord st3"
    using 4 by (auto simp: dumpCallCoverage_Inr split: if_splits)
  then have "coverRecord st' = coverRecord (recordCoverage cf covType covNum progLength st)"
    using 3 recordCoverage_cong [OF c1] by simp
  with f u show ?thesis by auto
qed

lemma dumpCoverage_no_call_file:
  assumes "dumpCoverage fl R cf info covType st = Inr st'"
    and "flagNoDumpCall fl \<or> flagSemantic fl"
  shows "files st' (callFile cf i) = files st (callFile cf i)"
proof -
  from assms(1) obtain st1 totalMap covNum progLength st3 where
    1: "dumpCalls fl R cf 0 (Calls info) st = Inr st1" and
    3: "st3 = (recordCoverage cf covType covNum progLength st1)
             \<lparr>files := (files st1)(cf @ ''.total'' \<mapsto> concat (map (\<lambda>pc. pc @ [CHR 0x0A]) totalMap))\<rparr>" and
    4: "dumpCallCoverage R (cf @ ''.extra'') (Extra info) st3 = Inr st'"
    by (rule dumpCoverage_Inr)
  have "st1 = st" using 1 dumpCalls_off [OF assms(2)] by simp
  then have "files st3 (callFile cf i) = files st (callFile cf i)"
    using 3 callFile_not_total(1) [of cf i] by simp
  then show ?thesis
    using 4 callFile_not_total(2) [of cf i] by (auto simp: dumpCallCoverage_Inr split: if_splits)
qed

lemma sample_addresses:
  "restore_hi 1 0xffffffff = 0xffffffff00000001"
  "restore_hi 2 0xffffffff = 0xffffffff00000002"
  "restore_hi 3 0xffffffff = 0xffffffff00000003"
  by (simp_all add: restore_hi_def)

lemma sample_lines:
  "Sprintf_0x 0xffffffff00000001 = ''0xffffffff00000001''"
  "Sprintf_0x 0xffffffff00000002 = ''0xffffffff00000002''"
  "Sprintf_0x 0xffffffff00000003 = ''0xffffffff00000003''"
  by (simp_all add: Sprintf_0x_def fmt_nat.simps digit_char_def)

lemma Itoa_small: "Itoa 0 = ''0''" "Itoa 1 = ''1''"
  by (simp_all add: Itoa_def fmt_nat.simps digit_char_def)

text \<open>
  C3, as the code has it. \<open>dumpCoverage\<close> returns when no file is unwritable (a failed
  write is fatal). When it returns, per-call dumping is not suppressed (\<open>-nodumpcall\<close> is
  off) and the run is not in semantic mode (\<open>-semantic\<close> is off), every call \<open>i\<close> with
  non-empty coverage has its file \<open>coverFile.i\<close>, holding one line \<open>0x\<close> and the restored
  address in hexadecimal per program counter of the call, in order. Here \<open>coverFile\<close> is
  the name \<open>dumpCoverage\<close> receives.
\<close>

theorem dumpCoverage_call_artifacts:
  "((\<forall>n. \<not> unwritable st n) \<longrightarrow> (\<exists>st'. dumpCoverage fl R coverFile info covType st = Inr st'))
   \<and> (\<forall>st' i. dumpCoverage fl R coverFile info covType st = Inr st'
          \<and> \<not> flagNoDumpCall fl \<and> \<not> flagSemantic fl
          \<and> i < length (Calls info) \<and> Cover (Calls info ! i) \<noteq> [] \<longrightarrow>
        files st' (coverFile @ ''.'' @ Itoa (int i)) =
          Some (concat (map (\<lambda>pc. Sprintf_0x (R pc 0xffffffff) @ [CHR 0x0A])
                  (Cover (Calls info ! i)))))"
  using dumpCoverage_returns [of st fl R coverFile info covType]
    dumpCoverage_call_file [of fl R coverFile info covType st]
  by (auto simp: callFile_def coverLines_def)

theorem dumpCoverage_call_artifacts_witness:
  "\<exists>st'. dumpCoverage fl0 restore_hi ''cov_prog0'' info2 0 state0 = Inr st'
     \<and> files st' ''cov_prog0.0'' =
         Some (''0xffffffff00000001'' @ [CHR 0x0A] @ ''0xffffffff00000002'' @ [CHR 0x0A])
     \<and> files st' ''cov_prog0.1'' =
         Some (''0xffffffff00000002'' @ [CHR 0x0A] @ ''0xffffffff00000003'' @ [CHR 0x0A]
               @ ''0xffffffff00000001'' @ [CHR 0x0A])"
proof -
  note t = dumpCoverage_call_artifacts [of state0 fl0 restore_hi "''cov_prog0''" info2 0]
  have "\<forall>n. \<not> unwritable state0 n" by (simp add: state0_def)
  with t obtain st' where r: "dumpCoverage fl0 restore_hi ''cov_prog0'' info2 0 state0 = Inr st'"
    by blast
  have f: "\<not> flagNoDumpCall fl0" "\<not> flagSemantic fl0" by (simp_all add: fl0_def)
  have "files st' (''cov_prog0'' @ ''.'' @ Itoa (int 0)) =
      Some (concat (map (\<lambda>pc. Sprintf_0x (restore_hi pc 0xffffffff) @ [CHR 0x0A])
                  (Cover (Calls info2 ! 0))))"
    by (rule t [THEN conjunct2, rule_format]) (use r f in \<open>simp add: info2_def\<close>)
  moreover have "files st' (''cov_prog0'' @ ''.'' @ Itoa (int 1)) =
      Some (concat (map (\<lambda>pc. Sprintf_0x (restore_hi pc 0xffffffff) @ [CHR 0x0A])
                  (Cover (Calls info2 ! 1))))"
    by (rule t [THEN conjunct2, rule_format]) (use r f in \<open>simp add: info2_def\<close>)
  ultimately show ?thesis
    using r by (simp add: info2_def sample_addresses sample_lines Itoa_small)
qed

text \<open>
  In semantic mode nothing is written per call, although \<open>-nodumpcall\<close> is off and the
  call has coverage.
\<close>

theorem dumpCoverage_semantic_writes_no_call_file:
  "flagCoverFile fl_semantic = ''cov'' \<and> flagNoDumpCall fl_semantic = False
   \<and> Cover (Calls info2 ! 0) = [1, 2]
   \<and> (\<exists>st'. dumpCoverage fl_semantic restore_hi ''cov_prog0'' info2 0 state0 = Inr st'
         \<and> files st' ''cov_prog0.0'' = None)"
proof -
  have "\<forall>n. \<not> unwritable state0 n" by (simp add: state0_def)
  then obtain st' where r: "dumpCoverage fl_semantic restore_hi ''cov_prog0'' info2 0 state0 = Inr st'"
    using dumpCoverage_returns by blast
  have "files st' (callFile ''cov_prog0'' 0) = files state0 (callFile ''cov_prog0'' 0)"
    using r by (rule dumpCoverage_no_call_file) (simp add: fl_semantic_def)
  then have "files st' ''cov_prog0.0'' = None"
    by (simp add: callFile_def Itoa_small state0_def)
  with r show ?thesis by (simp add: fl_semantic_def fl0_def info2_def)
qed

text \<open>
  C6. \<open>dumpCoverage\<close> returns when no file is unwritable. When it returns, the file
  \<open>coverFile.total\<close> holds one line per element of the union of the calls' restored
  address sets, each address once: its lines are distinct, they are the formatted
  addresses of the union, and their number is the cardinality of the union. The count
  handed to the coverage record is that cardinality too.
\<close>

theorem dumpCoverage_total_dedup:
  "((\<forall>n. \<not> unwritable st n) \<longrightarrow> (\<exists>st'. dumpCoverage fl R coverFile info covType st = Inr st'))
   \<and> (\<forall>st'. dumpCoverage fl R coverFile info covType st = Inr st' \<longrightarrow>
        (\<exists>keys. files st' (coverFile @ ''.total'') = Some (concat (map (\<lambda>pc. pc @ [CHR 0x0A]) keys))
           \<and> distinct keys
           \<and> set keys = Sprintf_0x ` restored R (Calls info)
           \<and> length keys = card (restored R (Calls info)))
        \<and> fst (snd (totalCoverage R (Calls info))) = int (card (restored R (Calls info)))
        \<and> coverRecord st' = coverRecord (recordCoverage coverFile covType
             (int (card (restored R (Calls info)))) (int (length (Calls info))) st))"
proof -
  have "fst (snd (totalCoverage R (Calls info))) = int (card (restored R (Calls info)))"
    using totalCoverage_union [of R "Calls info"] by (cases "totalCoverage R (Calls info)") simp
  then show ?thesis
    using dumpCoverage_returns [of st fl R coverFile info covType]
      dumpCoverage_total_file [of fl R coverFile info covType st]
    by blast
qed

lemma sample_restored:
  "restored restore_hi (Calls info2) = {0xffffffff00000001, 0xffffffff00000002, 0xffffffff00000003}"
  by (auto simp: restored_def info2_def sample_addresses)

theorem dumpCoverage_total_dedup_witness:
  "\<exists>st' keys. dumpCoverage fl0 restore_hi ''cov_prog0'' info2 0 state0 = Inr st'
      \<and> files st' ''cov_prog0.total'' = Some (concat (map (\<lambda>pc. pc @ [CHR 0x0A]) keys))
      \<and> set keys = {''0xffffffff00000001'', ''0xffffffff00000002'', ''0xffffffff00000003''}
      \<and> length keys = 3
      \<and> length (Cover (Calls info2 ! 0)) + length (Cover (Calls info2 ! 1)) = 5
      \<and> coverRecord st' = [(''cov_prog0'', (3, 0, 2))]"
proof -
  note t = dumpCoverage_total_dedup [of state0 fl0 restore_hi "''cov_prog0''" info2 0]
  have "\<forall>n. \<not> unwritable state0 n" by (simp add: state0_def)
  with t obtain st' where r: "dumpCoverage fl0 restore_hi ''cov_prog0'' info2 0 state0 = Inr st'"
    by blast
  have c: "card (restored restore_hi (Calls info2)) = 3"
    by (simp add: sample_restored)
  from t r obtain keys where k:
    "files st' (''cov_prog0'' @ ''.total'') = Some (concat (map (\<lambda>pc. pc @ [CHR 0x0A]) keys))"
    "set keys = Sprintf_0x ` restored restore_hi (Calls info2)"
    "length keys = card (restored restore_hi (Calls info2))"
    by blast
  have "coverRecord st' = coverRecord (recordCoverage ''cov_prog0'' 0
             (int (card (restored restore_hi (Calls info2)))) (int (length (Calls info2))) state0)"
    using t r by blast
  moreover have l: "length (Calls info2) = 2" by (simp add: info2_def)
  ultimately have "coverRecord st' = [(''cov_prog0'', (3, 0, 2))]"
    by (simp add: c recordCoverage_def recordStore_def getCoverRecord_def setCoverRecord_def
          TrimSuffix_def HasSuffix_def state0_def)
  moreover have "length (Cover (Calls info2 ! 0)) + length (Cover (Calls info2 ! 1)) = 5"
    by (simp add: info2_def)
  moreover have "set keys = {''0xffffffff00000001'', ''0xffffffff00000002'', ''0xffffffff00000003''}"
    using k(2) by (simp add: sample_restored sample_lines)
  ultimately show ?thesis
    using r k(1,3) c by auto
qed

subsection \<open>The retry loop\<close>

text \<open>
  What the loop does with an executor that fails at every attempt from \<open>ntry\<close> up to
  \<open>k\<close>: it succeeds at attempt \<open>k\<close> after \<open>k - ntry\<close> one-second sleeps as long as
  \<open>k \<le> *flagMaxRetry + 1\<close>, and gives up at attempt \<open>*flagMaxRetry + 1\<close> otherwise.
\<close>

lemma retried_step:
  "retried n (st\<lparr>slept := Suc (slept st), logs := logs st @ [LogRetrying]\<rparr>) = retried (Suc n) st"
  by (simp add: retried_def replicate_append_same)

lemma execute_loop_succeeds:
  assumes "\<forall>t. ntry \<le> t \<and> t < k \<longrightarrow> failed (Exec t)" "\<not> failed (Exec k)"
    "ntry \<le> k" "int k \<le> flagMaxRetry fl + 1"
  shows "execute_loop fl Exec progIndex ntry st = Inr (Some (Exec k), retried (k - ntry) st)"
  using assms
proof (induction "k - ntry" arbitrary: ntry st)
  case 0
  then have "ntry = k" by simp
  with 0 show ?case
    by (subst execute_loop.simps) (simp add: retried_def)
next
  case (Suc n)
  then have f: "failed (Exec ntry)" and lt: "ntry < k" by auto
  then have m: "\<not> int ntry > flagMaxRetry fl" using Suc.prems(4) by linarith
  have "execute_loop fl Exec progIndex (Suc ntry) (st\<lparr>slept := Suc (slept st), logs := logs st @ [LogRetrying]\<rparr>)
      = Inr (Some (Exec k), retried (k - Suc ntry) (st\<lparr>slept := Suc (slept st), logs := logs st @ [LogRetrying]\<rparr>))"
    using Suc.hyps(2) Suc.prems lt by (intro Suc.hyps(1)) auto
  moreover have "Suc (k - Suc ntry) = k - ntry" using lt by simp
  ultimately show ?case using f m
    by (subst execute_loop.simps) (simp add: retried_step)
qed

lemma execute_loop_exhausts:
  assumes "\<forall>t. ntry \<le> t \<and> t < k \<longrightarrow> failed (Exec t)"
    "int k > flagMaxRetry fl + 1" "int ntry \<le> flagMaxRetry fl + 1"
  shows "execute_loop fl Exec progIndex ntry st =
     (if flagProgDir fl \<noteq> '''' then
        Inr (None, skipped (nat (flagMaxRetry fl + 1)) progIndex
                     (retried (nat (flagMaxRetry fl + 1) - ntry) st))
      else Inl (FatalExecutorFailed (nat (flagMaxRetry fl + 1))))"
  using assms
proof (induction "nat (flagMaxRetry fl + 1) - ntry" arbitrary: ntry st)
  case 0
  then have e: "ntry = nat (flagMaxRetry fl + 1)" by linarith
  then have "ntry < k" using 0 by linarith
  then have f: "failed (Exec ntry)" using 0 by simp
  have "int ntry > flagMaxRetry fl" using e 0 by linarith
  with f e show ?case
    by (subst execute_loop.simps) (simp add: retried_def skipped_def)
next
  case (Suc n)
  then have lt: "ntry < nat (flagMaxRetry fl + 1)" by linarith
  then have "ntry < k" using Suc by linarith
  then have f: "failed (Exec ntry)" using Suc by simp
  have m: "\<not> int ntry > flagMaxRetry fl" using lt by linarith
  have ih: "execute_loop fl Exec progIndex (Suc ntry) (st\<lparr>slept := Suc (slept st), logs := logs st @ [LogRetrying]\<rparr>) =
     (if flagProgDir fl \<noteq> '''' then
        Inr (None, skipped (nat (flagMaxRetry fl + 1)) progIndex
                     (retried (nat (flagMaxRetry fl + 1) - Suc ntry)
                        (st\<lparr>slept := Suc (slept st), logs := logs st @ [LogRetrying]\<rparr>)))
      else Inl (FatalExecutorFailed (nat (flagMaxRetry fl + 1))))"
    using Suc.hyps(2) Suc.prems lt by (intro Suc.hyps(1)) auto
  have s: "Suc (nat (flagMaxRetry fl + 1) - Suc ntry) = nat (flagMaxRetry fl + 1) - ntry" using lt by simp
  show ?case using f m
    by (subst execute_loop.simps) (simp add: ih retried_step s)
qed

lemma fails_then_ok_failed:
  "failed (fails_then_ok k info t) \<longleftrightarrow> t < k"
  by (simp add: fails_then_ok_def failed_def)

text \<open>
  C1 at the boundary \<open>k = maxRetry + 1\<close>: in directory mode with \<open>-retry 10\<close>, an executor
  that fails 11 times and then succeeds is retried 11 times, with 11 seconds of sleep; the
  dispatch ends in success, the program is not skipped and the failure counter stays 0.
\<close>

theorem execute_loop_eleven_failures:
  "flagMaxRetry fl_dir = 10
   \<and> execute_loop fl_dir (fails_then_ok 11 info2) 0 0 state0
       = Inr (Some (ErrNil, Some info2), retried 11 state0)
   \<and> slept (retried 11 state0) = 11
   \<and> execFailCnt (retried 11 state0) = 0"
proof -
  have m: "flagMaxRetry fl_dir = 10" by (simp add: fl_dir_def fl0_def)
  have "execute_loop fl_dir (fails_then_ok 11 info2) 0 0 state0
      = Inr (Some (fails_then_ok 11 info2 11), retried (11 - 0) state0)"
    by (rule execute_loop_succeeds) (simp_all add: fails_then_ok_failed m)
  then show ?thesis
    by (simp add: m fails_then_ok_def retried_def state0_def)
qed

subsection \<open>Loading programs\<close>

lemma corpusProgs_eq: "corpusProgs deser recs acc = acc @ List.map_filter deser recs"
  by (induction recs arbitrary: acc) (auto simp: List.map_filter_simps split: option.splits)

lemma loadPrograms_from_ok:
  "\<forall>fn \<in> set fns. readable env fn \<Longrightarrow>
   loadPrograms_from env fns acc = Inr (acc @ concat (map (sourceProgs env) fns))"
  by (induction fns arbitrary: acc)
    (auto simp: readable_def sourceProgs_def corpusProgs_eq split: option.splits)

lemma loadPrograms_from_fatal:
  "\<not> (\<forall>fn \<in> set fns. readable env fn) \<Longrightarrow>
   \<exists>fn \<in> set fns. \<not> readable env fn \<and> loadPrograms_from env fns acc = Inl (FatalReadLog fn)"
proof (induction fns arbitrary: acc)
  case Nil
  then show ?case by simp
next
  case (Cons f fns)
  show ?case
  proof (cases "readable env f")
    case True
    with Cons.prems have "\<not> (\<forall>fn \<in> set fns. readable env fn)" by simp
    from Cons.IH [OF this] True show ?thesis
      by (auto simp: readable_def split: option.splits)
  next
    case False
    then show ?thesis by (auto simp: readable_def)
  qed
qed

text \<open>
  C2, as the code has it. Loading returns exactly when every source is readable, and then
  the result is the concatenation, in order, of what each source contributes: the records
  of a corpus that deserialize (the others are skipped), or the programs of the log when
  the source does not open as a corpus. As soon as one source is neither a corpus nor a
  readable file, loading ends the process, whatever the other sources are.
\<close>

theorem loadPrograms_all_or_fatal:
  "((\<forall>fn \<in> set fns. readable env fn) \<longrightarrow>
      loadPrograms env fns = Inr (concat (map (sourceProgs env) fns)))
   \<and> (\<not> (\<forall>fn \<in> set fns. readable env fn) \<longrightarrow>
      (\<exists>fn \<in> set fns. \<not> readable env fn \<and> loadPrograms env fns = Inl (FatalReadLog fn)))
   \<and> (\<forall>fn records. dbOpen env fn = Some records \<longrightarrow>
         sourceProgs env fn = List.map_filter (Deserialize env) records)
   \<and> (\<forall>fn data. dbOpen env fn = None \<and> ReadFile env fn = Some data \<longrightarrow>
         sourceProgs env fn = ParseLog env data)"
  using loadPrograms_from_ok [of fns env "[]"] loadPrograms_from_fatal [of fns env "[]"]
  by (auto simp: loadPrograms_def sourceProgs_def)

lemma env1_readable: "readable env1 ''corpus.db''" "readable env1 ''run.log''" "\<not> readable env1 ''missing''"
  by (simp_all add: readable_def env1_def)

theorem loadPrograms_all_or_fatal_witness:
  "loadPrograms env1 [''corpus.db'', ''run.log''] = Inr [7, 9, 1, 2]
   \<and> loadPrograms env1 [''corpus.db'', ''missing'', ''run.log''] = Inl (FatalReadLog ''missing'')
   \<and> sourceProgs env1 ''corpus.db'' = [7, 9]
   \<and> sourceProgs env1 ''run.log'' = [1, 2]"
proof -
  note t1 = loadPrograms_all_or_fatal [of "[''corpus.db'', ''run.log'']" env1]
  note t2 = loadPrograms_all_or_fatal [of "[''corpus.db'', ''missing'', ''run.log'']" env1]
  have a: "dbOpen env1 ''corpus.db'' = Some [''7'', ''bad'', ''9'']"
    and b: "dbOpen env1 ''run.log'' = None \<and> ReadFile env1 ''run.log'' = Some ''log''"
    by (simp_all add: env1_def)
  have s1: "sourceProgs env1 ''corpus.db'' = List.map_filter (Deserialize env1) [''7'', ''bad'', ''9'']"
    using t1 a by blast
  have s2: "sourceProgs env1 ''run.log'' = ParseLog env1 ''log''"
    using t1 b by blast
  have s1': "sourceProgs env1 ''corpus.db'' = [7, 9]"
    unfolding s1 by (simp add: List.map_filter_simps env1_def)
  have s2': "sourceProgs env1 ''run.log'' = [1, 2]"
    unfolding s2 by (simp add: env1_def)
  have "loadPrograms env1 [''corpus.db'', ''run.log''] = Inr [7, 9, 1, 2]"
    using t1 env1_readable by (simp add: s1' s2')
  moreover have "loadPrograms env1 [''corpus.db'', ''missing'', ''run.log''] = Inl (FatalReadLog ''missing'')"
    using t2 env1_readable by auto
  ultimately show ?thesis using s1' s2' by simp
qed

text \<open>A readable corpus followed by a missing file: the process ends.\<close>

theorem loadPrograms_fatal_despite_readable_source:
  "readable env1 ''corpus.db'' \<and> loadPrograms env1 [''corpus.db'', ''missing''] = Inl (FatalReadLog ''missing'')"
  by (simp add: readable_def env1_def loadPrograms_def List.map_filter_simps)

subsection \<open>Cursor and scheduling\<close>

lemma getProgramIndex_calls_upt:
  "progs ctx \<noteq> [] \<Longrightarrow>
   getProgramIndex_calls n ctx = Inr ([pos ctx ..< pos ctx + n], ctx\<lparr>pos := pos ctx + n\<rparr>)"
proof (induction n arbitrary: ctx)
  case 0
  then show ?case by simp
next
  case (Suc n)
  have "progs (ctx\<lparr>pos := Suc (pos ctx)\<rparr>) \<noteq> []" using Suc.prems by simp
  from Suc.IH [OF this] Suc.prems show ?case
    by (simp add: getProgramIndex_def upt_rec)
qed

lemma count_list_set_True:
  "i < length xs \<Longrightarrow> \<not> xs ! i \<Longrightarrow> count_list (xs[i := True]) True = Suc (count_list xs True)"
proof (induction xs arbitrary: i)
  case Nil
  then show ?case by simp
next
  case (Cons x xs)
  then show ?case by (cases i) auto
qed

lemma wrap64_id: "- (2 ^ 63) \<le> x \<Longrightarrow> x < 2 ^ 63 \<Longrightarrow> wrap64 x = x"
  by (simp add: wrap64_def)

lemma wrap64_product:
  assumes "0 < r" "int n * r < 2 ^ 63"
  shows "wrap64 (int n * r) = int n * r"
proof -
  have "0 \<le> int n * r" using assms(1) by simp
  then have "- (2 ^ 63) \<le> int n * r" by simp
  then show ?thesis using assms(2) by (rule wrap64_id)
qed

lemma pool_step_inv:
  assumes inv: "pool_inv ps r pl" and ps: "ps \<noteq> []" and r: "0 < r"
    and nov: "int (length ps) * r < 2 ^ 63"
  shows "\<exists>pl'. pool_step (Iterate pid) pl = Inr pl' \<and> pool_inv ps r pl'
            \<and> length (returned pl') = length (returned pl)"
proof (cases "pid < length (returned pl) \<and> \<not> returned pl ! pid")
  case False
  then show ?thesis using inv by (auto simp: pool_step_def)
next
  case True
  let ?c = "pctx pl"
  let ?c' = "?c\<lparr>pos := Suc (pos ?c)\<rparr>"
  from inv have c: "progs ?c = ps" "repeat ?c = r" "\<not> shutdown pl"
    and p: "pos ?c = length (dispatched pl) + count_list (returned pl) True"
    and i: "idxs (dispatched pl) = [0..<length (dispatched pl)]"
    and e: "entries (dispatched pl) = map (\<lambda>i. ps ! (i mod length ps)) [0..<length (dispatched pl)]"
    and le: "int (length (dispatched pl)) \<le> int (length ps) * r"
    and fin: "0 < count_list (returned pl) True \<longrightarrow> int (length (dispatched pl)) = int (length ps) * r"
    by (simp_all add: pool_inv_def)
  have w: "wrap64 (int (length ps) * r) = int (length ps) * r"
    using r nov by (rule wrap64_product)
  show ?thesis
  proof (cases "int (pos ?c) \<ge> int (length ps) * r")
    case stop: True
    then have s: "pool_step (Iterate pid) pl = Inr (pl\<lparr>pctx := ?c', returned := (returned pl)[pid := True]\<rparr>)"
      using True c ps r w by (simp add: pool_step_def run_iteration_def getProgramIndex_def)
    have "int (length (dispatched pl)) = int (length ps) * r"
    proof (cases "0 < count_list (returned pl) True")
      case True
      then show ?thesis using fin by simp
    next
      case False
      then have "pos ?c = length (dispatched pl)" using p by simp
      then show ?thesis using stop le by simp
    qed
    then have "pool_inv ps r (pl\<lparr>pctx := ?c', returned := (returned pl)[pid := True]\<rparr>)"
      using c p i e True by (simp add: pool_inv_def count_list_set_True)
    with s show ?thesis by simp
  next
    case go: False
    then have s: "pool_step (Iterate pid) pl =
        Inr (pl\<lparr>pctx := ?c', dispatched := dispatched pl @ [(pid, ps ! (pos ?c mod length ps), pos ?c)]\<rparr>)"
      using True c ps r w by (simp add: pool_step_def run_iteration_def getProgramIndex_def)
    have z: "count_list (returned pl) True = 0"
    proof (rule ccontr)
      assume "count_list (returned pl) True \<noteq> 0"
      then have "0 < count_list (returned pl) True" by simp
      with fin p go show False by simp
    qed
    then have q: "pos ?c = length (dispatched pl)" using p by simp
    then have "int (length (dispatched pl)) + 1 \<le> int (length ps) * r" using go by simp
    then have "pool_inv ps r (pl\<lparr>pctx := ?c', dispatched := dispatched pl @ [(pid, ps ! (pos ?c mod length ps), pos ?c)]\<rparr>)"
      using c z q i e by (simp add: pool_inv_def idxs_def entries_def)
    with s show ?thesis by simp
  qed
qed

lemma pool_run_inv:
  assumes "pool_inv ps r pl" "ps \<noteq> []" "0 < r" "no_interrupt evs"
    "int (length ps) * r < 2 ^ 63"
  shows "\<exists>pl'. pool_run evs pl = Inr pl' \<and> pool_inv ps r pl'
            \<and> length (returned pl') = length (returned pl)"
  using assms
proof (induction evs arbitrary: pl)
  case Nil
  then show ?case by simp
next
  case (Cons ev evs)
  from Cons.prems(4) obtain pid where ev: "ev = Iterate pid"
    by (cases ev) (auto simp: no_interrupt_def)
  from pool_step_inv [OF Cons.prems(1,2,3,5), of pid] obtain pl1 where
    1: "pool_step (Iterate pid) pl = Inr pl1" "pool_inv ps r pl1"
       "length (returned pl1) = length (returned pl)" by blast
  have "no_interrupt evs" using Cons.prems(4) by (simp add: no_interrupt_def)
  from Cons.IH [OF 1(2) Cons.prems(2,3) this Cons.prems(5)] 1 ev show ?case by auto
qed

lemma start_pool_inv: "0 < r \<Longrightarrow> pool_inv ps r (start_pool ps fns r procs)"
  by (simp add: pool_inv_def start_pool_def idxs_def entries_def)

lemma count_list_all_True: "count_list xs True = length xs \<longleftrightarrow> (\<forall>b \<in> set xs. b)"
proof (induction xs)
  case Nil
  then show ?case by simp
next
  case (Cons x xs)
  have "count_list xs True \<le> length xs" by (rule count_le_length)
  with Cons show ?case by auto
qed

lemma pool_run_complete:
  assumes "ps \<noteq> []" "0 < r" "0 < procs" "no_interrupt evs"
    "int (length ps) * r < 2 ^ 63"
  shows "\<exists>pl. pool_run evs (start_pool ps fns r procs) = Inr pl
     \<and> length (returned pl) = procs
     \<and> pos (pctx pl) = length (dispatched pl) + count_list (returned pl) True
     \<and> int (length (dispatched pl)) \<le> int (length ps) * r
     \<and> idxs (dispatched pl) = [0..<length (dispatched pl)]
     \<and> entries (dispatched pl) = map (\<lambda>i. ps ! (i mod length ps)) [0..<length (dispatched pl)]
     \<and> ((\<forall>b \<in> set (returned pl). b) \<longrightarrow> int (length (dispatched pl)) = int (length ps) * r)"
proof -
  from pool_run_inv [OF start_pool_inv [OF assms(2)] assms(1,2,4,5), of fns procs]
  obtain pl where pl: "pool_run evs (start_pool ps fns r procs) = Inr pl" "pool_inv ps r pl"
    "length (returned pl) = procs"
    by (auto simp: start_pool_def)
  have "(\<forall>b \<in> set (returned pl). b) \<longrightarrow> 0 < count_list (returned pl) True"
    using count_list_all_True [of "returned pl"] pl(3) assms(3) by auto
  with pl show ?thesis by (auto simp: pool_inv_def)
qed

lemma getProgramIndex_empty: "progs ctx = [] \<Longrightarrow> getProgramIndex ctx = Inl PanicDivideByZero"
  by (simp add: getProgramIndex_def)

text \<open>
  C7. In a pool that has a program, any number of calls of \<open>getProgramIndex\<close>, from
  whichever workers, return consecutive positions: the calls return \<open>pos\<close>, \<open>pos + 1\<close>,
  ... in the order in which they take the lock, so from the initial position 0 the
  returned values are exactly \<open>0, 1, ..., n - 1\<close>, strictly increasing and without repeats.
\<close>

theorem getProgramIndex_calls_unique:
  assumes "progs ctx \<noteq> []"
  shows "getProgramIndex_calls n ctx = Inr ([pos ctx ..< pos ctx + n], ctx\<lparr>pos := pos ctx + n\<rparr>)
     \<and> (pos ctx = 0 \<longrightarrow> fst (projr (getProgramIndex_calls n ctx)) = [0..<n])
     \<and> distinct (fst (projr (getProgramIndex_calls n ctx)))
     \<and> sorted_wrt (<) (fst (projr (getProgramIndex_calls n ctx)))"
  using getProgramIndex_calls_upt [OF assms, of n] by simp

theorem getProgramIndex_calls_unique_witness:
  "getProgramIndex_calls 5 ctx2 = Inr ([0, 1, 2, 3, 4], ctx2\<lparr>pos := 5\<rparr>)"
proof -
  have "progs ctx2 \<noteq> []" by (simp add: ctx2_def)
  from getProgramIndex_calls_unique [OF this, of 5] have
    "getProgramIndex_calls 5 ctx2 = Inr ([pos ctx2 ..< pos ctx2 + 5], ctx2\<lparr>pos := pos ctx2 + 5\<rparr>)"
    by blast
  moreover have "pos ctx2 = 0" by (simp add: ctx2_def)
  ultimately show ?thesis by (simp add: upt_rec)
qed

lemma run_iteration_wraps:
  assumes "getProgramIndex ctx = Inr (i, ctx')" "0 < repeat ctx"
  shows "run_iteration False ctx =
     Inr (if wrap64 (int (length (progs ctx)) * repeat ctx) \<le> int i then Stop
          else Dispatch (progs ctx ! (i mod length (progs ctx))) i, ctx')"
  using assms by (auto simp: run_iteration_def getProgramIndex_def split: if_splits)

lemma run_iteration_rule:
  assumes "getProgramIndex ctx = Inr (i, ctx')" "0 < repeat ctx"
    "int (length (progs ctx)) * repeat ctx < 2 ^ 63"
  shows "run_iteration False ctx =
     Inr (if int (length (progs ctx)) * repeat ctx \<le> int i then Stop
          else Dispatch (progs ctx ! (i mod length (progs ctx))) i, ctx')"
  using run_iteration_wraps [OF assms(1,2)] wrap64_product [OF assms(2,3)] by simp

lemma mod4_counts: "j < 4 \<Longrightarrow> length (filter (\<lambda>i. i mod 4 = j) [0..<8]) = 2"
proof -
  assume "j < 4"
  then have "j = 0 \<or> j = 1 \<or> j = 2 \<or> j = 3" by arith
  moreover have "[0..<8] = [0, 1, 2, 3, 4, 5, 6, 7::nat]" by (simp add: upt_rec)
  ultimately show ?thesis by auto
qed

lemma all_True_2: "length xs = 2 \<Longrightarrow> count_list xs True = 2 \<Longrightarrow> xs = [True, True]"
proof -
  assume a: "length xs = 2" "count_list xs True = 2"
  then obtain x y where xs: "xs = [x, y]"
    by (auto simp: length_Suc_conv numeral_2_eq_2)
  with a(2) show ?thesis by (cases x; cases y) auto
qed

lemma pool_step_progress:
  assumes "pid < length (returned pl)" "\<not> returned pl ! pid" "\<not> shutdown pl"
    "progs (pctx pl) \<noteq> []"
  shows "\<exists>pl'. pool_step (Iterate pid) pl = Inr pl' \<and> pos (pctx pl') = Suc (pos (pctx pl))"
  using assms by (simp add: pool_step_def run_iteration_def getProgramIndex_def)

lemma pool_4_2_2:
  assumes "length ps = 4" "no_interrupt evs"
  shows "\<exists>pl. pool_run evs (start_pool ps fns 2 2) = Inr pl
      \<and> length (dispatched pl) \<le> 8
      \<and> pos (pctx pl) \<le> 10
      \<and> (pos (pctx pl) = 10 \<longrightarrow> returned pl = [True, True])
      \<and> (returned pl = [True, True] \<longrightarrow>
            length (dispatched pl) = 8 \<and> idxs (dispatched pl) = [0..<8]
            \<and> entries (dispatched pl) = [ps ! 0, ps ! 1, ps ! 2, ps ! 3, ps ! 0, ps ! 1, ps ! 2, ps ! 3]
            \<and> (\<forall>j<4. length (filter (\<lambda>i. i mod 4 = j) (idxs (dispatched pl))) = 2))"
proof -
  have ps: "ps \<noteq> []" using assms(1) by auto
  have "int (length ps) * 2 < 2 ^ 63" using assms(1) by simp
  from pool_run_complete [OF ps _ _ assms(2) this, of 2 fns]
  obtain pl where pl: "pool_run evs (start_pool ps fns 2 2) = Inr pl"
    "int (length (dispatched pl)) \<le> int (length ps) * 2"
    "idxs (dispatched pl) = [0..<length (dispatched pl)]"
    "entries (dispatched pl) = map (\<lambda>i. ps ! (i mod length ps)) [0..<length (dispatched pl)]"
    "(\<forall>b \<in> set (returned pl). b) \<longrightarrow> int (length (dispatched pl)) = int (length ps) * 2"
    and len: "length (returned pl) = 2"
    and p: "pos (pctx pl) = length (dispatched pl) + count_list (returned pl) True"
    by auto
  have le: "length (dispatched pl) \<le> 8" using pl(2) assms(1) by simp
  have c: "count_list (returned pl) True \<le> 2"
    using count_le_length [of "returned pl" True] len by simp
  have p10: "pos (pctx pl) \<le> 10" using p le c by simp
  have fin: "pos (pctx pl) = 10 \<longrightarrow> returned pl = [True, True]"
  proof
    assume "pos (pctx pl) = 10"
    with p le c have "count_list (returned pl) True = 2" by simp
    with len show "returned pl = [True, True]" by (rule all_True_2)
  qed
  {
    assume "returned pl = [True, True]"
    then have l: "length (dispatched pl) = 8" using pl(5) assms(1) by simp
    have u: "[0..<8] = [0, 1, 2, 3, 4, 5, 6, 7::nat]" by (simp add: upt_rec)
    have "entries (dispatched pl) = [ps ! 0, ps ! 1, ps ! 2, ps ! 3, ps ! 0, ps ! 1, ps ! 2, ps ! 3]"
      using pl(4) assms(1) by (simp add: l u)
    then have "length (dispatched pl) = 8 \<and> idxs (dispatched pl) = [0..<8]
            \<and> entries (dispatched pl) = [ps ! 0, ps ! 1, ps ! 2, ps ! 3, ps ! 0, ps ! 1, ps ! 2, ps ! 3]
            \<and> (\<forall>j<4. length (filter (\<lambda>i. i mod 4 = j) (idxs (dispatched pl))) = 2)"
      using pl(3) l mod4_counts by simp
  }
  with pl(1) le p10 fin show ?thesis by blast
qed

lemma sched10_run:
  "\<exists>pl. pool_run sched10 (start_pool progs4 [] 2 2) = Inr pl \<and> returned pl = [True, True]"
  by (simp add: sched10_def start_pool_def progs4_def pool_step_def run_iteration_def
        getProgramIndex_def wrap64_id numeral_2_eq_2)

text \<open>
  C8, as the code has it. The product \<open>N * R\<close> of the stop test is computed in Go's 64-bit
  \<open>int\<close>. With a repeat limit \<open>R > 0\<close> and \<open>N\<close> programs such that \<open>N * R\<close> does not exceed
  the largest \<open>int\<close>, \<open>2 ^ 63 - 1\<close>, the iteration that drew the index \<open>i\<close> stops without
  dispatching when \<open>i \<ge> N * R\<close> and dispatches program \<open>i mod N\<close> otherwise. With 4
  programs, 2 workers and \<open>R = 2\<close>, under every schedule without an interrupt there are
  never more than 8 dispatches, and once both workers have returned there were exactly 8,
  with the indices 0 to 7: each program was dispatched twice. The workers do return: every
  iteration of a running worker advances the position by one (lemma
  \<open>pool_step_progress\<close>), the position never exceeds 10, and at position 10 both workers
  have returned.
\<close>

theorem run_dispatch_rule:
  "(\<forall>i ctx'. getProgramIndex ctx = Inr (i, ctx') \<and> 0 < repeat ctx
        \<and> int (length (progs ctx)) * repeat ctx < 2 ^ 63 \<longrightarrow>
      run_iteration False ctx =
        Inr (if int (length (progs ctx)) * repeat ctx \<le> int i then Stop
             else Dispatch (progs ctx ! (i mod length (progs ctx))) i, ctx'))
   \<and> (length ps = 4 \<and> no_interrupt evs \<longrightarrow>
        (\<exists>pl. pool_run evs (start_pool ps fns 2 2) = Inr pl
           \<and> length (dispatched pl) \<le> 8
           \<and> pos (pctx pl) \<le> 10
           \<and> (pos (pctx pl) = 10 \<longrightarrow> returned pl = [True, True])
           \<and> (returned pl = [True, True] \<longrightarrow>
                 length (dispatched pl) = 8 \<and> idxs (dispatched pl) = [0..<8]
                 \<and> entries (dispatched pl) =
                     [ps ! 0, ps ! 1, ps ! 2, ps ! 3, ps ! 0, ps ! 1, ps ! 2, ps ! 3]
                 \<and> (\<forall>j<4. length (filter (\<lambda>i. i mod 4 = j) (idxs (dispatched pl))) = 2))))"
  using run_iteration_rule [of ctx] pool_4_2_2 [of ps evs fns] by blast

theorem run_dispatch_rule_witness:
  "run_iteration False (ctx2\<lparr>pos := 1\<rparr>) = Inr (Dispatch ''b'' 1, ctx2\<lparr>pos := 2\<rparr>)
   \<and> run_iteration False (ctx2\<lparr>pos := 2\<rparr>) = Inr (Stop, ctx2\<lparr>pos := 3\<rparr>)
   \<and> (\<exists>pl. pool_run sched10 (start_pool progs4 [] 2 2) = Inr pl
         \<and> returned pl = [True, True]
         \<and> length (dispatched pl) = 8
         \<and> entries (dispatched pl) = [''p0'', ''p1'', ''p2'', ''p3'', ''p0'', ''p1'', ''p2'', ''p3'']
         \<and> length (filter (\<lambda>i. i mod 4 = 3) (idxs (dispatched pl))) = 2)"
proof -
  note a = run_dispatch_rule [of "ctx2\<lparr>pos := 1\<rparr>" progs4 sched10 "[]", THEN conjunct1, rule_format,
      of 1 "ctx2\<lparr>pos := 2\<rparr>"]
  note b = run_dispatch_rule [of "ctx2\<lparr>pos := 2\<rparr>" progs4 sched10 "[]", THEN conjunct1, rule_format,
      of 2 "ctx2\<lparr>pos := 3\<rparr>"]
  note c = run_dispatch_rule [of ctx2 progs4 sched10 "[]", THEN conjunct2, rule_format]
  have 1: "run_iteration False (ctx2\<lparr>pos := 1\<rparr>) = Inr (Dispatch ''b'' 1, ctx2\<lparr>pos := 2\<rparr>)"
    using a by (simp add: ctx2_def getProgramIndex_def)
  have 2: "run_iteration False (ctx2\<lparr>pos := 2\<rparr>) = Inr (Stop, ctx2\<lparr>pos := 3\<rparr>)"
    using b by (simp add: ctx2_def getProgramIndex_def)
  have "length progs4 = 4 \<and> no_interrupt sched10"
    by (simp add: progs4_def sched10_def no_interrupt_def)
  from c [OF this] obtain pl where pl: "pool_run sched10 (start_pool progs4 [] 2 2) = Inr pl"
    "returned pl = [True, True] \<longrightarrow>
       length (dispatched pl) = 8 \<and> idxs (dispatched pl) = [0..<8]
       \<and> entries (dispatched pl) =
          [progs4 ! 0, progs4 ! 1, progs4 ! 2, progs4 ! 3, progs4 ! 0, progs4 ! 1, progs4 ! 2, progs4 ! 3]
       \<and> (\<forall>j<4. length (filter (\<lambda>i. i mod 4 = j) (idxs (dispatched pl))) = 2)"
    by blast
  from sched10_run pl(1) have r: "returned pl = [True, True]" by auto
  with pl(2) have "length (dispatched pl) = 8"
    "entries (dispatched pl) = [''p0'', ''p1'', ''p2'', ''p3'', ''p0'', ''p1'', ''p2'', ''p3'']"
    "length (filter (\<lambda>i. i mod 4 = 3) (idxs (dispatched pl))) = 2"
    by (simp_all add: progs4_def mod4_counts)
  with 1 2 pl(1) r show ?thesis by blast
qed

text \<open>
  C8 as the specification states it, for every \<open>N\<close> and every \<open>R > 0\<close>, fails where the
  product wraps around. With 4 programs and \<open>-repeat 4611686018427387904\<close>, which is
  \<open>2 ^ 62\<close>, the product \<open>4 * 2 ^ 62 = 2 ^ 64\<close> is 0 in a 64-bit \<open>int\<close>: the first iteration
  draws the index 0, which is below \<open>N * R\<close>, and the worker stops instead of dispatching
  program 0.
\<close>

theorem run_iteration_product_wraps:
  "getProgramIndex ctx_big = Inr (0, ctx_big\<lparr>pos := 1\<rparr>)
   \<and> 0 < repeat ctx_big
   \<and> int 0 < int (length (progs ctx_big)) * repeat ctx_big
   \<and> run_iteration False ctx_big = Inr (Stop, ctx_big\<lparr>pos := 1\<rparr>)
   \<and> run_iteration False ctx_big
        \<noteq> Inr (Dispatch (progs ctx_big ! (0 mod length (progs ctx_big))) 0, ctx_big\<lparr>pos := 1\<rparr>)"
  by (simp add: run_iteration_def getProgramIndex_def ctx_big_def wrap64_def)

text \<open>
  Then the whole pool dispatches nothing: with these 4 programs, 2 workers and this repeat
  limit, both workers return at their first iteration.
\<close>

lemma pool_big_no_dispatch:
  "pool_run [Iterate 0, Iterate 1] (start_pool (progs ctx_big) [] (repeat ctx_big) 2)
     = Inr \<lparr>pctx = ctx_big\<lparr>pos := 2\<rparr>, shutdown = False, returned = [True, True],
            dispatched = []\<rparr>"
  by (simp add: start_pool_def pool_step_def run_iteration_def getProgramIndex_def ctx_big_def
        wrap64_def numeral_2_eq_2)

subsection \<open>Evaluating \<open>float64\<close> expressions\<close>

lemma floor_rat_numeral [simp]: "\<lfloor>numeral a / numeral b :: rat\<rfloor> = numeral a div numeral b"
  by (metis floor_divide_of_int_eq of_int_numeral)

lemma ceiling_rat_numeral [simp]: "\<lceil>numeral a / numeral b :: rat\<rceil> = - (- numeral a div numeral b)"
proof -
  have "\<lceil>of_int (numeral a) / of_int (numeral b) :: rat\<rceil> = - (- numeral a div numeral b)"
    unfolding ceiling_def
    by (metis floor_divide_of_int_eq minus_divide_left of_int_minus)
  then show ?thesis by simp
qed

lemma bitlen_simps:
  "bitlen 0 = 0" "bitlen (Suc 0) = 1" "bitlen (numeral k) = Suc (bitlen (numeral k div 2))"
  by (simp_all add: bitlen.simps)

declare fdiv.simps [simp del] fmul.simps [simp del]

lemmas float_eval = fdiv.simps fmul.simps float64_of_int_def mk_float_def round64_def ilog2_def bitlen_simps scale2_def
  round_even_def Let_def

lemma float64_of_int_small:
  "float64_of_int 0 = Fin False 0"
  "float64_of_int 1 = Fin False 1" "float64_of_int 2 = Fin False 2"
  "float64_of_int 3 = Fin False 3" "float64_of_int 4 = Fin False 4"
  by (simp_all add: float_eval)

lemma percent_2_4: "fmul (fdiv (Fin False 2) (Fin False 4)) (Fin False 100) = Fin False 50"
  by (simp add: float_eval)

lemma percent_1_3:
  "fmul (fdiv (Fin False 1) (Fin False 3)) (Fin False 100) = Fin False (2345624805922133 / 70368744177664)"
  by (simp add: float_eval)

lemma percent_1_4: "fmul (fdiv (Fin False 1) (Fin False 4)) (Fin False 100) = Fin False 25"
  by (simp add: float_eval)

lemma percent_1_1: "fmul (fdiv (Fin False 1) (Fin False 1)) (Fin False 100) = Fin False 100"
  by (simp add: float_eval)

lemma percent_0_1: "fmul (fdiv (Fin False 0) (Fin False 1)) (Fin False 100) = Fin False 0"
  by (simp add: float_eval)

lemma percent_0_0: "fmul (fdiv (Fin False 0) (Fin False 0)) (Fin False 100) = NaN"
  by (simp add: fdiv.simps fmul.simps)

lemma Sprintf_2f_pct_values:
  "Sprintf_2f_pct (Fin False 50) = ''50.00%''"
  "Sprintf_2f_pct (Fin False (2345624805922133 / 70368744177664)) = ''33.33%''"
  "Sprintf_2f_pct (Fin False 25) = ''25.00%''"
  "Sprintf_2f_pct (Fin False 100) = ''100.00%''"
  "Sprintf_2f_pct (Fin False 0) = ''0.00%''"
  "Sprintf_2f_pct NaN = ''NaN%''"
  by (simp_all add: Sprintf_2f_pct_def round_even_def Let_def fmt_nat.simps digit_char_def)

text \<open>
  Two checks of the model: \<open>bitlen\<close> brackets its argument between powers of two, and
  every integer below \<open>2 ^ 53\<close> converts to \<open>float64\<close> exactly.
\<close>

lemma bitlen_bounds: "0 < n \<Longrightarrow> 2 ^ (bitlen n - 1) \<le> n \<and> n < 2 ^ bitlen n"
proof (induction n rule: bitlen.induct)
  case (1 n)
  show ?case
  proof (cases "n div 2 = 0")
    case True
    with 1(2) have "n = 1" by auto
    then show ?thesis by (simp add: bitlen_simps)
  next
    case False
    then have p: "0 < n div 2" by simp
    from 1(1) [OF _ p] 1(2) have ih: "2 ^ (bitlen (n div 2) - 1) \<le> n div 2" "n div 2 < 2 ^ bitlen (n div 2)"
      by auto
    have b: "bitlen n = Suc (bitlen (n div 2))" using 1(2) by (subst bitlen.simps) simp
    have pos: "0 < bitlen (n div 2)" using p by (subst bitlen.simps) simp
    have "2 ^ (bitlen n - 1) = 2 * 2 ^ (bitlen (n div 2) - 1)"
      using pos by (simp add: b flip: power_Suc)
    also have "\<dots> \<le> 2 * (n div 2)" using ih(1) by simp
    also have "\<dots> \<le> n" by simp
    finally have lo: "2 ^ (bitlen n - 1) \<le> n" .
    have "n < 2 * (n div 2) + 2" by presburger
    also have "\<dots> \<le> 2 * 2 ^ bitlen (n div 2)" using ih(2) by simp
    finally have "n < 2 ^ bitlen n" by (simp add: b)
    with lo show ?thesis by simp
  qed
qed

lemma round_even_of_int: "round_even (of_int m) = m"
  by (simp add: round_even_def)

lemma float64_of_int_exact:
  assumes "0 \<le> n" "n < 2 ^ 53"
  shows "float64_of_int n = Fin False (of_int n)"
proof (cases "n = 0")
  case True
  then show ?thesis by (simp add: float64_of_int_def mk_float_def round64_def)
next
  case False
  with assms have n: "0 < n" by simp
  define k where "k = bitlen (nat n) - 1"
  have bl: "2 ^ k \<le> nat n" "nat n < 2 ^ bitlen (nat n)" "0 < bitlen (nat n)"
    using bitlen_bounds [of "nat n"] n by (auto simp: k_def intro: Nat.gr0I simp: bitlen_simps)
  have "(2::nat) ^ k < 2 ^ 53"
  proof -
    have "nat n < 2 ^ 53" using assms by (simp add: nat_less_iff)
    with bl(1) show ?thesis by linarith
  qed
  then have k: "k < 53" using power_less_imp_less_exp [of 2 k 53] by simp
  have x1: "(1::rat) \<le> of_int n" using n by simp
  have il: "ilog2 (of_int n) = int k"
    using x1 bl(3) by (simp add: ilog2_def k_def)
  have e: "max (int k - 52) (- 1074) = int k - 52" using k by simp
  have neg: "\<not> 0 \<le> int k - 52 \<or> k = 52" using k by linarith
  have sc: "scale2 (of_int n) (52 - int k) = of_int (n * 2 ^ (52 - k))"
    using k by (simp add: scale2_def nat_diff_distrib')
  have r1: "round_even (scale2 (of_int n) (52 - int k)) = n * 2 ^ (52 - k)"
    unfolding sc by (rule round_even_of_int)
  have r2: "scale2 (of_int n * 2 ^ (52 - k)) (int k - 52) = of_int n"
  proof (cases "k = 52")
    case True
    then show ?thesis by (simp add: scale2_def)
  next
    case False
    with k have "\<not> 0 \<le> int k - 52" "nat (52 - int k) = 52 - k" by auto
    then show ?thesis by (simp add: scale2_def)
  qed
  have "round64 (of_int n) = Some (of_int n)"
    using n k by (simp add: round64_def il e r1 r2 Let_def)
  then show ?thesis using n by (simp add: float64_of_int_def mk_float_def)
qed

subsection \<open>The report writer\<close>

lemma countEntry_classified:
  "countEntry v c = plus_counters c (classified [v])"
  by (cases v) (simp add: countEntry_def classified_def plus_counters_def count_if_def
      isWin_def isEqual_def isLose_def oneLine_def Let_def)

lemma classified_Cons:
  "plus_counters (plus_counters c (classified [v])) (classified es) = plus_counters c (classified (v # es))"
  by (simp add: classified_def plus_counters_def count_if_def)

lemma saveToFile_loop_ok:
  "\<forall>n. wok n \<Longrightarrow>
   saveToFile_loop wok n al c buf = Some (plus_counters c (classified (map snd al)), buf @ rows al)"
proof (induction al arbitrary: n c buf)
  case Nil
  then show ?case by (simp add: plus_counters_def classified_def count_if_def rows_def)
next
  case (Cons a al)
  obtain key v where a: "a = (key, v)" by (cases a)
  have w: "wok n" using Cons.prems by simp
  have "saveToFile_loop wok n (a # al) c buf =
      saveToFile_loop wok (Suc n) al (countEntry v c) (buf @ rowLine key v)"
    by (simp add: a w)
  also have "\<dots> = Some (plus_counters (countEntry v c) (classified (map snd al)),
      (buf @ rowLine key v) @ rows al)"
    by (rule Cons.IH [OF Cons.prems])
  finally show ?case
    by (simp add: a countEntry_classified classified_Cons rows_def)
qed

lemma plus_counters0: "plus_counters counters0 c = c"
  by (simp add: plus_counters_def counters0_def)

lemma saveToFile_ok:
  assumes "\<not> unwritable st fileName" "\<forall>n. wok n"
  shows "saveToFile fileName wok st =
     Inr (st\<lparr>files := (files st)(fileName \<mapsto>
            headerLine @ rows (coverRecord st)
            @ summaryLines (execFailCnt st) (classified (map snd (coverRecord st))))\<rparr>)"
proof -
  have "wok 0" "wok (Suc (length (coverRecord st)))" using assms(2) by simp_all
  then show ?thesis
    using assms(1) saveToFile_loop_ok [OF assms(2), of 1 "coverRecord st" counters0 headerLine]
    by (simp add: saveToFile_def plus_counters0)
qed

lemma count_if_mset: "count_if P es = int (size (filter_mset P (mset es)))"
  by (simp add: count_if_def flip: mset_filter)

lemma length_mset: "int (length es) = int (size (mset es))"
  by simp

lemma classified_four:
  assumes "mset es = {#(a1, b1, 3), (a2, b2, 1), (a3, a3, 2), (a4, b4, 4)#}"
    "b1 < a1" "b2 < a2" "a4 < b4"
  shows "classified es = counters4"
  unfolding classified_def count_if_mset length_mset assms(1)
  using assms(2-4) by (simp add: counters4_def isWin_def isEqual_def isLose_def oneLine_def)

lemma Itoa_digits:
  "Itoa 0 = ''0''" "Itoa 1 = ''1''" "Itoa 2 = ''2''" "Itoa 3 = ''3''" "Itoa 4 = ''4''"
  "Itoa 5 = ''5''" "Itoa 6 = ''6''" "Itoa 7 = ''7''" "Itoa 10 = ''10''"
  by (simp_all add: Itoa_def fmt_nat.simps digit_char_def)

lemma rates4:
  "Sprintf_2f_pct (OCER counters4) = ''50.00%''"
  "Sprintf_2f_pct (ECER counters4) = ''33.33%''"
  "Sprintf_2f_pct (CER counters4) = ''25.00%''"
  by (simp_all add: OCER_def ECER_def CER_def counters4_def float64_of_int_small
        percent_2_4 percent_1_3 percent_1_4 Sprintf_2f_pct_values)

lemma summaryLines4: "summaryLines f counters4 = summary4 f"
  by (simp add: summaryLines_def summary4_def rates4) (simp add: counters4_def Itoa_digits)

lemma rates_empty:
  "OCER (classified []) = NaN" "ECER (classified []) = NaN" "CER (classified []) = NaN"
  by (simp_all add: OCER_def ECER_def CER_def classified_def count_if_def float64_of_int_small
        percent_0_0)

lemma summaryLines_empty: "summaryLines f (classified []) = summary_empty f"
  by (simp add: summaryLines_def summary_empty_def rates_empty Sprintf_2f_pct_values)
     (simp add: classified_def count_if_def Itoa_digits)

lemma classified_all_oneline_wins:
  assumes "\<forall>v \<in> set es. isWin v \<and> oneLine v"
  shows "totalProgCnt (classified es) = int (length es)"
    "totalWinCnt (classified es) = int (length es)"
    "oneLineWinCnt (classified es) = int (length es)"
  using assms by (simp_all add: classified_def count_if_def)

text \<open>
  C4. When the report file can be created and written, \<open>saveToFile\<close> succeeds and the
  file holds the header, one row per entry and the summary of the counters, which are the
  classification counts of the entries: Win for greater original coverage, Equal for
  equal, Lose otherwise, and the entries of length 1 counted apart. For a record of exactly
  four entries, a Win of length 3, a Win of length 1, an Equal of length 2 and a Lose of
  length 4, in any order, the counters are total 4, wins 2, one-line wins 1, and the rates
  print as 50.00%, 33.33% and 25.00%.
\<close>

theorem saveToFile_classifies:
  assumes "\<not> unwritable st fileName" and "\<forall>n. wok n"
  shows "(\<exists>st'. saveToFile fileName wok st = Inr st'
            \<and> files st' fileName = Some (headerLine @ rows (coverRecord st)
                 @ summaryLines (execFailCnt st) (classified (map snd (coverRecord st)))))
     \<and> (mset (map snd (coverRecord st)) = {#(a1, b1, 3), (a2, b2, 1), (a3, a3, 2), (a4, b4, 4)#}
          \<and> b1 < a1 \<and> b2 < a2 \<and> a4 < b4 \<longrightarrow>
          classified (map snd (coverRecord st)) =
            \<lparr>totalProgCnt = 4, totalWinCnt = 2, totalEqualCnt = 1, totalLoseCnt = 1,
             oneLineProgCnt = 1, oneLineWinCnt = 1, oneLineEqualCnt = 0, oneLineLoseCnt = 0\<rparr>
          \<and> Sprintf_2f_pct (OCER (classified (map snd (coverRecord st)))) = ''50.00%''
          \<and> Sprintf_2f_pct (ECER (classified (map snd (coverRecord st)))) = ''33.33%''
          \<and> Sprintf_2f_pct (CER (classified (map snd (coverRecord st)))) = ''25.00%''
          \<and> summaryLines (execFailCnt st) (classified (map snd (coverRecord st)))
               = summary4 (execFailCnt st))"
proof -
  have "\<exists>st'. saveToFile fileName wok st = Inr st'
            \<and> files st' fileName = Some (headerLine @ rows (coverRecord st)
                 @ summaryLines (execFailCnt st) (classified (map snd (coverRecord st))))"
    by (simp add: saveToFile_ok [OF assms])
  moreover {
    assume "mset (map snd (coverRecord st)) = {#(a1, b1, 3), (a2, b2, 1), (a3, a3, 2), (a4, b4, 4)#}"
      "b1 < a1" "b2 < a2" "a4 < b4"
    then have "classified (map snd (coverRecord st)) = counters4" by (rule classified_four)
    then have "classified (map snd (coverRecord st)) =
            \<lparr>totalProgCnt = 4, totalWinCnt = 2, totalEqualCnt = 1, totalLoseCnt = 1,
             oneLineProgCnt = 1, oneLineWinCnt = 1, oneLineEqualCnt = 0, oneLineLoseCnt = 0\<rparr>
          \<and> Sprintf_2f_pct (OCER (classified (map snd (coverRecord st)))) = ''50.00%''
          \<and> Sprintf_2f_pct (ECER (classified (map snd (coverRecord st)))) = ''33.33%''
          \<and> Sprintf_2f_pct (CER (classified (map snd (coverRecord st)))) = ''25.00%''
          \<and> summaryLines (execFailCnt st) (classified (map snd (coverRecord st)))
               = summary4 (execFailCnt st)"
      by (simp add: rates4 summaryLines4) (simp add: counters4_def)
  }
  ultimately show ?thesis by blast
qed

theorem saveToFile_classifies_witness:
  "\<exists>st'. saveToFile ''cov_Evaluation_Results'' (\<lambda>n. True) st4 = Inr st'
     \<and> files st' ''cov_Evaluation_Results'' =
         Some (''Program Name,Cover,ReverseCover,Program Length'' @ [CHR 0x0A]
               @ ''a,10,7,3'' @ [CHR 0x0A] @ ''b,5,3,1'' @ [CHR 0x0A]
               @ ''c,5,5,2'' @ [CHR 0x0A] @ ''d,2,6,4'' @ [CHR 0x0A]
               @ summary4 0)"
proof -
  have io: "\<not> unwritable st4 ''cov_Evaluation_Results''" "\<forall>n. (\<lambda>n. True) n"
    by (simp_all add: st4_def state0_def)
  note t = saveToFile_classifies [OF io, of 10 7 5 3 5 2 6]
  have m: "mset (map snd (coverRecord st4)) = {#(10, 7, 3), (5, 3, 1), (5, 5, 2), (2, 6, 4)#}
      \<and> (7::int) < 10 \<and> (3::int) < 5 \<and> (2::int) < 6"
    by (simp add: st4_def state0_def)
  from t m have s: "summaryLines (execFailCnt st4) (classified (map snd (coverRecord st4)))
      = summary4 (execFailCnt st4)" by blast
  from t obtain st' where r: "saveToFile ''cov_Evaluation_Results'' (\<lambda>n. True) st4 = Inr st'"
    "files st' ''cov_Evaluation_Results'' = Some (headerLine @ rows (coverRecord st4)
       @ summaryLines (execFailCnt st4) (classified (map snd (coverRecord st4))))"
    by blast
  have "rows (coverRecord st4) = ''a,10,7,3'' @ [CHR 0x0A] @ ''b,5,3,1'' @ [CHR 0x0A]
               @ ''c,5,5,2'' @ [CHR 0x0A] @ ''d,2,6,4'' @ [CHR 0x0A]"
    by (simp add: st4_def state0_def rows_def rowLine_def Itoa_digits)
  moreover have "execFailCnt st4 = 0" by (simp add: st4_def state0_def)
  ultimately show ?thesis using r s by (simp add: headerLine_def)
qed

text \<open>
  C10. The divisions are not guarded. With an empty record the total is 0, the three rates
  are \<open>0 / 0\<close>, that is NaN, and the report is written all the same, with \<open>NaN%\<close> for
  each rate, and \<open>saveToFile\<close> returns success. When every entry is a one-line win, the
  denominator of ECER is 0 and ECER is NaN; again the report is written and success
  returned.
\<close>

theorem saveToFile_division_by_zero:
  assumes "\<not> unwritable st fileName" and "\<forall>n. wok n"
  shows "(coverRecord st = [] \<longrightarrow>
            totalProgCnt (classified (map snd (coverRecord st))) = 0
            \<and> OCER (classified (map snd (coverRecord st))) = NaN
            \<and> ECER (classified (map snd (coverRecord st))) = NaN
            \<and> CER (classified (map snd (coverRecord st))) = NaN
            \<and> (\<exists>st'. saveToFile fileName wok st = Inr st'
                  \<and> files st' fileName = Some (headerLine @ summary_empty (execFailCnt st))))
     \<and> ((\<forall>v \<in> set (map snd (coverRecord st)). isWin v \<and> oneLine v) \<longrightarrow>
            totalProgCnt (classified (map snd (coverRecord st)))
              - oneLineWinCnt (classified (map snd (coverRecord st))) = 0
            \<and> ECER (classified (map snd (coverRecord st))) = NaN
            \<and> (\<exists>st'. saveToFile fileName wok st = Inr st'
                  \<and> files st' fileName = Some (headerLine @ rows (coverRecord st)
                       @ summaryLines (execFailCnt st) (classified (map snd (coverRecord st))))))"
proof -
  note ok = saveToFile_ok [OF assms]
  {
    assume e: "coverRecord st = []"
    have "totalProgCnt (classified (map snd (coverRecord st))) = 0"
      by (simp add: e classified_def)
    moreover have "\<exists>st'. saveToFile fileName wok st = Inr st'
                  \<and> files st' fileName = Some (headerLine @ summary_empty (execFailCnt st))"
      by (simp add: ok e summaryLines_empty rows_def)
    ultimately have "totalProgCnt (classified (map snd (coverRecord st))) = 0
            \<and> OCER (classified (map snd (coverRecord st))) = NaN
            \<and> ECER (classified (map snd (coverRecord st))) = NaN
            \<and> CER (classified (map snd (coverRecord st))) = NaN
            \<and> (\<exists>st'. saveToFile fileName wok st = Inr st'
                  \<and> files st' fileName = Some (headerLine @ summary_empty (execFailCnt st)))"
      by (simp add: e rates_empty)
  }
  moreover {
    assume a: "\<forall>v \<in> set (map snd (coverRecord st)). isWin v \<and> oneLine v"
    note c = classified_all_oneline_wins [OF a]
    have "ECER (classified (map snd (coverRecord st))) = NaN"
      by (simp add: ECER_def c float64_of_int_small percent_0_0)
    then have "totalProgCnt (classified (map snd (coverRecord st)))
              - oneLineWinCnt (classified (map snd (coverRecord st))) = 0
            \<and> ECER (classified (map snd (coverRecord st))) = NaN
            \<and> (\<exists>st'. saveToFile fileName wok st = Inr st'
                  \<and> files st' fileName = Some (headerLine @ rows (coverRecord st)
                       @ summaryLines (execFailCnt st) (classified (map snd (coverRecord st)))))"
      by (simp add: c ok)
  }
  ultimately show ?thesis by blast
qed

lemma summaryLines_oneline: "summaryLines 0 (classified [(5, 3, 1)]) = summary_oneline"
  by (simp add: summaryLines_def summary_oneline_def OCER_def ECER_def CER_def classified_def
        count_if_def isWin_def isEqual_def isLose_def oneLine_def float64_of_int_small
        percent_1_1 percent_0_0 percent_0_1 Sprintf_2f_pct_values Itoa_digits)

theorem saveToFile_division_by_zero_witness:
  "(\<exists>st'. saveToFile ''cov_Evaluation_Results'' (\<lambda>n. True) state0 = Inr st'
      \<and> files st' ''cov_Evaluation_Results'' =
           Some (''Program Name,Cover,ReverseCover,Program Length'' @ [CHR 0x0A] @ summary_empty 0))
   \<and> ECER (classified (map snd (coverRecord st_oneline))) = NaN
   \<and> (\<exists>st'. saveToFile ''cov_Evaluation_Results'' (\<lambda>n. True) st_oneline = Inr st'
      \<and> files st' ''cov_Evaluation_Results'' =
           Some (''Program Name,Cover,ReverseCover,Program Length'' @ [CHR 0x0A]
                 @ ''b,5,3,1'' @ [CHR 0x0A] @ summary_oneline))"
proof -
  have io0: "\<not> unwritable state0 ''cov_Evaluation_Results''" "\<forall>n. (\<lambda>n. True) n"
    by (simp_all add: state0_def)
  have io1: "\<not> unwritable st_oneline ''cov_Evaluation_Results''"
    by (simp add: st_oneline_def state0_def)
  note t0 = saveToFile_division_by_zero [OF io0, THEN conjunct1, rule_format]
  note t1 = saveToFile_division_by_zero [OF io1 io0(2), THEN conjunct2, THEN mp]
  have e: "coverRecord state0 = []" "execFailCnt state0 = 0" by (simp_all add: state0_def)
  have a: "\<forall>v \<in> set (map snd (coverRecord st_oneline)). isWin v \<and> oneLine v"
    by (simp add: st_oneline_def state0_def isWin_def oneLine_def)
  have 1: "\<exists>st'. saveToFile ''cov_Evaluation_Results'' (\<lambda>n. True) state0 = Inr st'
      \<and> files st' ''cov_Evaluation_Results'' =
           Some (''Program Name,Cover,ReverseCover,Program Length'' @ [CHR 0x0A] @ summary_empty 0)"
    using t0 [OF e(1)] by (simp add: e(2) headerLine_def)
  have r: "rows (coverRecord st_oneline) = ''b,5,3,1'' @ [CHR 0x0A]"
    "map snd (coverRecord st_oneline) = [(5, 3, 1)]" "execFailCnt st_oneline = 0"
    by (simp_all add: st_oneline_def state0_def rows_def rowLine_def Itoa_digits)
  have 2: "ECER (classified (map snd (coverRecord st_oneline))) = NaN"
    using t1 [OF a] by blast
  have 3: "\<exists>st'. saveToFile ''cov_Evaluation_Results'' (\<lambda>n. True) st_oneline = Inr st'
      \<and> files st' ''cov_Evaluation_Results'' =
           Some (''Program Name,Cover,ReverseCover,Program Length'' @ [CHR 0x0A]
                 @ ''b,5,3,1'' @ [CHR 0x0A] @ summary_oneline)"
    using t1 [OF a] by (simp add: r summaryLines_oneline headerLine_def)
  from 1 2 3 show ?thesis by blast
qed

subsection \<open>The order of the two pools\<close>

lemma count_list_le: "count_list xs True \<le> length xs"
  by (rule count_le_length)

lemma orig_done_no_running:
  "orig_done procs s \<Longrightarrow> i < length (origReturned s) \<Longrightarrow> origReturned s ! i"
proof -
  assume a: "orig_done procs s" "i < length (origReturned s)"
  then have "count_list (origReturned s) True = length (origReturned s)"
    by (simp add: orig_done_def)
  then have "\<forall>b \<in> set (origReturned s). b"
    using count_list_all_True [of "origReturned s"] by blast
  moreover have "origReturned s ! i \<in> set (origReturned s)" using a(2) by (rule nth_mem)
  ultimately show ?thesis by blast
qed

lemma main_step_inv:
  assumes "main_inv procs s" "main_step procs semantic ev s = Some s'"
  shows "main_inv procs s'"
proof (cases ev)
  case MainStep
  with assms show ?thesis
    by (cases "mpc s")
      (auto simp: main_step_def main_thread_def main_inv_def rev_started_def orig_done_def
         split: if_splits)
next
  case (OrigDispatch i)
  with assms show ?thesis by (auto simp: main_step_def split: if_splits)
next
  case (OrigReturn i)
  with assms have r: "i < length (origReturned s)" "\<not> origReturned s ! i"
    and s': "s' = s\<lparr>origReturned := (origReturned s)[i := True], wg := wg s - 1\<rparr>"
    by (auto simp: main_step_def split: if_splits)
  have nd: "\<not> orig_done procs s" using r orig_done_no_running by blast
  with assms(1) have nr: "\<not> rev_started s" by (auto simp: main_inv_def)
  then have nr': "\<not> rev_started s'" using s' by (simp add: rev_started_def)
  show ?thesis
    using assms(1) nd nr nr' r
    by (cases "mpc s")
      (auto simp: s' main_inv_def count_list_set_True rev_started_def)
next
  case (RevDispatch i)
  with assms have r: "i < length (revReturned s)"
    and s': "s' = s\<lparr>revDispatches := Suc (revDispatches s)\<rparr>"
    by (auto simp: main_step_def split: if_splits)
  then have "rev_started s" by (auto simp: rev_started_def)
  with assms(1) have "orig_done procs s" by (simp add: main_inv_def)
  then show ?thesis using assms(1) r
    by (cases "mpc s") (auto simp: s' main_inv_def rev_started_def orig_done_def)
next
  case (RevReturn i)
  with assms have r: "i < length (revReturned s)"
    and s': "s' = s\<lparr>revReturned := (revReturned s)[i := True], revWg := revWg s - 1\<rparr>"
    by (auto simp: main_step_def split: if_splits)
  then have "rev_started s" by (auto simp: rev_started_def)
  with assms(1) have "orig_done procs s" by (simp add: main_inv_def)
  then show ?thesis using assms(1) r
    by (cases "mpc s") (auto simp: s' main_inv_def rev_started_def orig_done_def)
next
  case Exit
  with assms show ?thesis
    by (auto simp: main_step_def main_inv_def rev_started_def orig_done_def split: if_splits)
qed

lemma main_run_inv:
  "main_inv procs s \<Longrightarrow> main_run procs semantic evs s = Some s' \<Longrightarrow> main_inv procs s'"
proof (induction evs arbitrary: s)
  case Nil
  then show ?case by simp
next
  case (Cons ev evs)
  then show ?case by (auto split: option.splits dest: main_step_inv)
qed

lemma main_init_inv: "main_inv procs main_init"
  by (simp add: main_inv_def main_init_def rev_started_def)

text \<open>
  C9. In every state that \<open>main\<close> can reach, under every interleaving of the main
  goroutine and the workers: if a reverse worker has been started or has dispatched, or
  the main goroutine is at the construction of the reverse pool or beyond it in the
  reverse phase, then all \<open>*flagProcs\<close> workers of the original pool were started and
  every one of them has returned. The barrier is \<open>wg.Wait()\<close>: its counter is the number
  of original workers that have not returned.
\<close>

theorem reverse_pool_after_original:
  assumes "main_run procs semantic evs main_init = Some s"
  shows "(revReturned s \<noteq> [] \<or> 0 < revDispatches s \<or> mpc s = AtRevAdd
            \<or> (\<exists>p. mpc s = AtRevSpawn p) \<or> mpc s = AtRevWait \<longrightarrow>
          int (length (origReturned s)) = procs \<and> (\<forall>b \<in> set (origReturned s). b))"
proof -
  have i: "main_inv procs s"
    using main_run_inv [OF main_init_inv assms] .
  {
    assume "revReturned s \<noteq> [] \<or> 0 < revDispatches s \<or> mpc s = AtRevAdd
            \<or> (\<exists>p. mpc s = AtRevSpawn p) \<or> mpc s = AtRevWait"
    with i have "orig_done procs s"
      by (auto simp: main_inv_def rev_started_def)
    then have "int (length (origReturned s)) = procs \<and> (\<forall>b \<in> set (origReturned s). b)"
      using count_list_all_True [of "origReturned s"] by (auto simp: orig_done_def)
  }
  then show ?thesis by blast
qed

lemma sched_dual_run:
  "main_run 2 True sched_dual main_init =
     Some \<lparr>mpc = AtRevSpawn 1, wg = 0, revWg = 2, origReturned = [True, True],
           revReturned = [False], revDispatches = 1\<rparr>"
  by (simp add: sched_dual_def main_init_def main_step_def main_thread_def live_def)

theorem reverse_pool_after_original_witness:
  "main_run 2 True sched_dual main_init =
     Some \<lparr>mpc = AtRevSpawn 1, wg = 0, revWg = 2, origReturned = [True, True],
           revReturned = [False], revDispatches = 1\<rparr>
   \<and> main_run 2 True [MainStep, MainStep, MainStep, MainStep, OrigReturn 1, MainStep] main_init
       = None"
proof -
  note t = reverse_pool_after_original [OF sched_dual_run]
  have "main_run 2 True [MainStep, MainStep, MainStep, MainStep, OrigReturn 1, MainStep] main_init
       = None"
    by (simp add: main_init_def main_step_def main_thread_def live_def)
  with t sched_dual_run show ?thesis by simp
qed

end
